theory Spec2Isabelle
  imports Complex_Main "HOL-Library.Sublist"
begin

section \<open>Embedding of the sources\<close>

subsection \<open>FifoMultiThreaded.hpp\<close>

text \<open>
  The class has two members: the \<^verbatim>\<open>std::queue<T, A> queue_\<close> and the recursive mutex
  \<^verbatim>\<open>mutex_\<close>. Every member function takes the mutex for the whole of its access to
  \<^verbatim>\<open>queue_\<close>, so any concurrent use of one instance is a sequence of member calls in
  the order in which they obtained the lock. The embedding is that sequence: the state is the
  content of \<^verbatim>\<open>queue_\<close>, front first, and a member function maps the state before the
  call to its return value and the state after it. The field is written \<open>queue\<close>, since a
  name cannot end in an underscore here.
\<close>

record 'a FifoMultiThreaded =
  queue :: "'a list"

text \<open>The constructor has an empty body: \<^verbatim>\<open>queue_\<close> is default-constructed.\<close>

definition FifoMultiThreaded_ctor :: "'a FifoMultiThreaded" where
  "FifoMultiThreaded_ctor = \<lparr>queue = []\<rparr>"

text \<open>\<^verbatim>\<open>queue_.push(element); return true;\<close>\<close>

definition FifoMultiThreaded_push :: "'a \<Rightarrow> 'a FifoMultiThreaded \<Rightarrow> bool \<times> 'a FifoMultiThreaded" where
  "FifoMultiThreaded_push element q = (True, q\<lparr>queue := queue q @ [element]\<rparr>)"

text \<open>
  \<^verbatim>\<open>pop(T &element)\<close>: the caller's variable is passed in and its content after the call
  is returned next to the status.
\<close>

definition FifoMultiThreaded_pop ::
  "'a \<Rightarrow> 'a FifoMultiThreaded \<Rightarrow> bool \<times> 'a \<times> 'a FifoMultiThreaded" where
  "FifoMultiThreaded_pop element q =
     (case queue q of
        [] \<Rightarrow> (False, element, q)
      | front # rest \<Rightarrow> (True, front, q\<lparr>queue := rest\<rparr>))"

definition FifoMultiThreaded_empty :: "'a FifoMultiThreaded \<Rightarrow> bool" where
  "FifoMultiThreaded_empty q = (queue q = [])"

text \<open>
  \<^verbatim>\<open>size()\<close> returns \<^verbatim>\<open>unsigned long long\<close>; the number of elements of a queue
  held in memory is below \<open>2 ^ 64\<close>, so the count is a natural number.
\<close>

definition FifoMultiThreaded_size :: "'a FifoMultiThreaded \<Rightarrow> nat" where
  "FifoMultiThreaded_size q = length (queue q)"

text \<open>
  A use of one instance: the calls in lock order. \<open>Pop v\<close> is a call of \<^verbatim>\<open>pop\<close>
  whose argument variable holds \<open>v\<close> before the call.
\<close>

datatype 'a fifo_call = Push 'a | Pop 'a | Empty | Size

datatype 'a fifo_ret = PushRet bool | PopRet bool 'a | EmptyRet bool | SizeRet nat

fun fifo_step :: "'a fifo_call \<Rightarrow> 'a FifoMultiThreaded \<Rightarrow> 'a fifo_ret \<times> 'a FifoMultiThreaded" where
  "fifo_step (Push x) q = (case FifoMultiThreaded_push x q of (st, q') \<Rightarrow> (PushRet st, q'))"
| "fifo_step (Pop v) q = (case FifoMultiThreaded_pop v q of (st, v', q') \<Rightarrow> (PopRet st v', q'))"
| "fifo_step Empty q = (EmptyRet (FifoMultiThreaded_empty q), q)"
| "fifo_step Size q = (SizeRet (FifoMultiThreaded_size q), q)"

fun fifo_run :: "'a fifo_call list \<Rightarrow> 'a FifoMultiThreaded \<Rightarrow> 'a fifo_ret list \<times> 'a FifoMultiThreaded" where
  "fifo_run [] q = ([], q)"
| "fifo_run (c # cs) q =
     (case fifo_step c q of (r, q') \<Rightarrow>
        (case fifo_run cs q' of (rs, q'') \<Rightarrow> (r # rs, q'')))"

text \<open>The items handed to \<^verbatim>\<open>push\<close>, and the items the successful pops returned, in order.\<close>

fun pushed_items :: "'a fifo_call list \<Rightarrow> 'a list" where
  "pushed_items [] = []"
| "pushed_items (Push x # cs) = x # pushed_items cs"
| "pushed_items (_ # cs) = pushed_items cs"

fun popped_items :: "'a fifo_ret list \<Rightarrow> 'a list" where
  "popped_items [] = []"
| "popped_items (PopRet True x # rs) = x # popped_items rs"
| "popped_items (_ # rs) = popped_items rs"

fun successful_pushes :: "'a fifo_ret list \<Rightarrow> nat" where
  "successful_pushes [] = 0"
| "successful_pushes (PushRet True # rs) = Suc (successful_pushes rs)"
| "successful_pushes (_ # rs) = successful_pushes rs"

fun successful_pops :: "'a fifo_ret list \<Rightarrow> nat" where
  "successful_pops [] = 0"
| "successful_pops (PopRet True x # rs) = Suc (successful_pops rs)"
| "successful_pops (_ # rs) = successful_pops rs"

subsection \<open>ILogProvider.hpp\<close>

text \<open>The level tags of namespace \<^verbatim>\<open>Literals\<close>.\<close>

definition allTag :: string where "allTag = ''all''"
definition traceTag :: string where "traceTag = ''trace''"
definition debugTag :: string where "debugTag = ''debug''"
definition infoTag :: string where "infoTag = ''info''"
definition warnTag :: string where "warnTag = ''warn''"
definition errorTag :: string where "errorTag = ''error''"
definition fatalTag :: string where "fatalTag = ''fatal''"
definition offTag :: string where "offTag = ''off''"

text \<open>The enumeration \<^verbatim>\<open>LogLevel\<close> and the integer each enumerator stands for.\<close>

datatype LogLevel = LL_ALL | LL_TRACE | LL_DEBUG | LL_INFO | LL_WARN | LL_ERROR | LL_FATAL | LL_OFF

fun LogLevel_value :: "LogLevel \<Rightarrow> int" where
  "LogLevel_value LL_ALL = 0x7F"
| "LogLevel_value LL_TRACE = 0x3F"
| "LogLevel_value LL_DEBUG = 0x1F"
| "LogLevel_value LL_INFO = 0xF"
| "LogLevel_value LL_WARN = 0x7"
| "LogLevel_value LL_ERROR = 0x3"
| "LogLevel_value LL_FATAL = 0x1"
| "LogLevel_value LL_OFF = 0x0"

text \<open>
  \<^verbatim>\<open>std::string::compare\<close>: negative, zero or positive as the first string is before,
  equal to or after the second, characters compared as unsigned bytes, a proper prefix before
  the longer string. Only the sign is specified, so the model returns \<open>-1\<close>, \<open>0\<close> or \<open>1\<close>.
\<close>

fun string_compare :: "string \<Rightarrow> string \<Rightarrow> int" where
  "string_compare [] [] = 0"
| "string_compare [] (b # bs) = - 1"
| "string_compare (a # as) [] = 1"
| "string_compare (a # as) (b # bs) =
     (if (of_char a :: nat) < of_char b then - 1
      else if (of_char b :: nat) < of_char a then 1
      else string_compare as bs)"

text \<open>
  \<^verbatim>\<open>ILogProvider::setLevel(const std::string&)\<close>. The numeric \<^verbatim>\<open>setLevel(int)\<close> is pure
  virtual: it is the parameter \<open>setLevel\<close>, and the result of the string overload is whatever
  the numeric one returns for the chosen level.
\<close>

definition ILogProvider_setLevel_string :: "(int \<Rightarrow> 'r) \<Rightarrow> string \<Rightarrow> 'r" where
  "ILogProvider_setLevel_string setLevel level =
     (let intLevel =
        (if 0 = string_compare level traceTag then LogLevel_value LL_TRACE
         else if 0 = string_compare level debugTag then LogLevel_value LL_DEBUG
         else if 0 = string_compare level infoTag then LogLevel_value LL_INFO
         else if 0 = string_compare level warnTag then LogLevel_value LL_WARN
         else if 0 = string_compare level errorTag then LogLevel_value LL_ERROR
         else if 0 = string_compare level fatalTag then LogLevel_value LL_FATAL
         else if 0 = string_compare level offTag then LogLevel_value LL_OFF
         else LogLevel_value LL_ALL)
      in setLevel intLevel)"

subsection \<open>Log4CppLoggerProvider.hpp\<close>

text \<open>
  The provider's own members are \<^verbatim>\<open>propertiesFile_\<close> and \<^verbatim>\<open>started_\<close> (and a mutex).
  The log4cpp library is not part of the sources: its state is a type parameter \<open>'l\<close>, and the
  two library calls the modelled functions make, \<^verbatim>\<open>PropertyConfigurator::configure\<close> and
  \<^verbatim>\<open>Category::setRootPriority\<close>, are parameters that either throw a
  \<^verbatim>\<open>ConfigureFailure\<close> or return the library's new state. What is written to
  \<^verbatim>\<open>std::cerr\<close> is kept as a list of lines.
\<close>

datatype ConfigureFailure = ConfigureFailure (what: string)

datatype PriorityLevel = NOTSET | DEBUG | INFO | WARN | ERROR | FATAL

record 'l Log4CppLoggerProvider =
  propertiesFile :: string
  started :: bool
  log4cpp :: 'l
  cerr :: "string list"

definition Log4CppLoggerProvider_ctor :: "string \<Rightarrow> 'l \<Rightarrow> 'l Log4CppLoggerProvider" where
  "Log4CppLoggerProvider_ctor file lib =
     \<lparr>propertiesFile = file, started = False, log4cpp = lib, cerr = []\<rparr>"

definition Log4CppLoggerProvider_setLevel ::
  "(PriorityLevel \<Rightarrow> 'l \<Rightarrow> ConfigureFailure + 'l) \<Rightarrow> int \<Rightarrow> 'l Log4CppLoggerProvider
     \<Rightarrow> bool \<times> 'l Log4CppLoggerProvider" where
  "Log4CppLoggerProvider_setLevel setRootPriority level p =
     (if \<not> started p then (False, p\<lparr>cerr := cerr p @ [''Call start() first!'']\<rparr>)
      else
        let log4cppPriority =
          (if level = LogLevel_value LL_DEBUG then DEBUG
           else if level = LogLevel_value LL_INFO then INFO
           else if level = LogLevel_value LL_WARN then WARN
           else if level = LogLevel_value LL_ERROR then ERROR
           else if level = LogLevel_value LL_FATAL then FATAL
           else NOTSET)
        in
          if \<not> started p then
            (case setRootPriority log4cppPriority (log4cpp p) of
               Inl e \<Rightarrow> (False, p\<lparr>cerr := cerr p @ [''Set priotity problem '' @ what e]\<rparr>)
             | Inr lib \<Rightarrow> (True, p\<lparr>log4cpp := lib\<rparr>))
          else (True, p))"

definition Log4CppLoggerProvider_start ::
  "(string \<Rightarrow> 'l \<Rightarrow> ConfigureFailure + 'l) \<Rightarrow> 'l Log4CppLoggerProvider
     \<Rightarrow> bool \<times> 'l Log4CppLoggerProvider" where
  "Log4CppLoggerProvider_start configure p =
     (if \<not> started p then
        (case configure (propertiesFile p) (log4cpp p) of
           Inl e \<Rightarrow> (False, p\<lparr>cerr := cerr p @ [''Configure problem '' @ what e]\<rparr>)
         | Inr lib \<Rightarrow> (True, p\<lparr>log4cpp := lib, started := True\<rparr>))
      else (started p, p))"

subsection \<open>RapidJsonProvider.hpp\<close>

text \<open>
  A RapidJSON value, by its seven types. An object is the list of its members in document
  order: member names may repeat, and a lookup finds the first.
\<close>

datatype json =
    JNull
  | JFalse
  | JTrue
  | JObject "(string \<times> json) list"
  | JArray "json list"
  | JString string
  | JNumber real

text \<open>
  The provider holds the parsed document \<^verbatim>\<open>doc_\<close> and \<^verbatim>\<open>initialized_\<close>, true when the
  text given to the constructor parsed; the logger it refers to is modelled by the list of
  messages a call sends to it.
\<close>

record RapidJsonProvider =
  doc :: json
  initialized :: bool

datatype KeyValuePair = KeyValuePair (pair_key: string) (pair_value: string)

text \<open>\<^verbatim>\<open>getKeyValue\<close> returns false and does not touch \<^verbatim>\<open>values\<close>.\<close>

definition RapidJsonProvider_getKeyValue ::
  "RapidJsonProvider \<Rightarrow> string \<Rightarrow> KeyValuePair list \<Rightarrow> bool \<times> KeyValuePair list" where
  "RapidJsonProvider_getKeyValue p key values = (False, values)"

text \<open>\<^verbatim>\<open>setValue\<close> ignores both arguments and returns false.\<close>

definition RapidJsonProvider_setValue :: "RapidJsonProvider \<Rightarrow> string \<Rightarrow> string \<Rightarrow> bool" where
  "RapidJsonProvider_setValue p key val = False"

subsection \<open>CallbackWithTimeout.hpp\<close>

text \<open>
  Integer division of C++ truncates towards zero (\<open>div\<close> rounds down); the divisor here is
  the constant 25, so division by zero does not arise.
\<close>

definition cpp_div :: "int \<Rightarrow> int \<Rightarrow> int" where
  "cpp_div a b = (if (a < 0) = (b < 0) then \<bar>a\<bar> div \<bar>b\<bar> else - (\<bar>a\<bar> div \<bar>b\<bar>))"

definition timeSliceMilliseconds :: int where
  "timeSliceMilliseconds = 25"

text \<open>
  What the worker thread does that can be seen from outside: it calls the callback and it
  sleeps. What it sees of the rest of the program is the value of each
  \<^verbatim>\<open>execute_.load\<close>, in the order of the loads: the list \<open>loads\<close>. A load past the end
  of the list reads false (the flag has been cleared by then), so a list of \<open>n\<close> times
  \<open>True\<close> is a run in which the flag stays set for the first \<open>n\<close> loads.
\<close>

datatype event = Callback | Sleep int

text \<open>
  The inner loop
  \<^verbatim>\<open>while (execute_.load() && step++ < maxSteps) sleep_for(milliseconds(timeSliceMilliseconds))\<close>.
  The conjunction is short-circuit: each test makes one load, and \<^verbatim>\<open>step\<close> is compared and
  incremented only when the load is true. The result is the events of the loop and the loads
  left for the code after it. (\<^verbatim>\<open>step\<close> is a \<^verbatim>\<open>long\<close>; it counts up to
  \<^verbatim>\<open>maxSteps\<close>, at most \<open>2 ^ 63 div 25\<close>, and so stays in range where \<^verbatim>\<open>long\<close> has
  64 bits.)
\<close>

fun sleep_loop :: "int \<Rightarrow> int \<Rightarrow> bool list \<Rightarrow> event list \<times> bool list" where
  "sleep_loop maxSteps step [] = ([], [])"
| "sleep_loop maxSteps step (e # loads) =
     (if e \<and> step < maxSteps then
        (case sleep_loop maxSteps (step + 1) loads of
           (evs, rest) \<Rightarrow> (Sleep timeSliceMilliseconds # evs, rest))
      else ([], loads))"

lemma sleep_loop_rest_length: "length (snd (sleep_loop maxSteps step loads)) \<le> length loads"
  by (induction maxSteps step loads rule: sleep_loop.induct) (auto split: prod.splits)

text \<open>
  The worker's lambda: while the flag loads true, call the callback, compute
  \<^verbatim>\<open>maxSteps = timeoutMilliseconds / timeSliceMilliseconds\<close>, and run the inner loop from
  \<^verbatim>\<open>step = 0\<close>.
\<close>

function worker :: "int \<Rightarrow> bool list \<Rightarrow> event list" where
  "worker timeoutMilliseconds [] = []"
| "worker timeoutMilliseconds (e # loads) =
     (if e then
        (case sleep_loop (cpp_div timeoutMilliseconds timeSliceMilliseconds) 0 loads of
           (evs, rest) \<Rightarrow> Callback # evs @ worker timeoutMilliseconds rest)
      else [])"
  by pat_completeness auto
termination
proof (relation "measure (\<lambda>(t, loads). length loads)", goal_cases)
  case 1
  show ?case by simp
next
  case (2 timeoutMilliseconds e loads evs rest)
  then have "rest = snd (sleep_loop (cpp_div timeoutMilliseconds timeSliceMilliseconds) 0 loads)"
    by (metis snd_conv)
  then have "length rest \<le> length loads"
    by (simp add: sleep_loop_rest_length)
  then show ?case
    by simp
qed

text \<open>The milliseconds of sleep in a trace.\<close>

fun total_sleep :: "event list \<Rightarrow> int" where
  "total_sleep [] = 0"
| "total_sleep (Callback # evs) = total_sleep evs"
| "total_sleep (Sleep ms # evs) = ms + total_sleep evs"

text \<open>
  The same loop, one step at a time, for the threads that run next to it. A worker is at one
  of five points: before the outer test, inside the callback, before the inner test with the
  current \<^verbatim>\<open>step\<close>, inside \<^verbatim>\<open>sleep_for\<close> (with \<^verbatim>\<open>step\<close> already incremented), or
  past the end of its lambda. A step at a test loads the flag: \<open>flag\<close> is the value loaded.
  The callback is taken to return (a callback that blocks keeps its worker inside it).
\<close>

datatype worker_point = OuterTest | InCallback | InnerTest int | Sleeping int | Exited

fun worker_step :: "bool \<Rightarrow> int \<Rightarrow> worker_point \<Rightarrow> worker_point" where
  "worker_step flag timeoutMilliseconds OuterTest = (if flag then InCallback else Exited)"
| "worker_step flag timeoutMilliseconds InCallback = InnerTest 0"
| "worker_step flag timeoutMilliseconds (InnerTest step) =
     (if flag \<and> step < cpp_div timeoutMilliseconds timeSliceMilliseconds
      then Sleeping (step + 1) else OuterTest)"
| "worker_step flag timeoutMilliseconds (Sleeping step) = InnerTest step"
| "worker_step flag timeoutMilliseconds Exited = Exited"

text \<open>
  The events of a worker that goes on from a point by such steps, its loads reading the
  values of a list; this is the trace \<open>worker\<close> gives (lemma \<open>worker_steps_trace\<close>).
\<close>

fun loads_flag :: "worker_point \<Rightarrow> bool" where
  "loads_flag OuterTest = True"
| "loads_flag (InnerTest step) = True"
| "loads_flag _ = False"

fun entering :: "worker_point \<Rightarrow> event list" where
  "entering InCallback = [Callback]"
| "entering (Sleeping step) = [Sleep timeSliceMilliseconds]"
| "entering _ = []"

function worker_steps :: "int \<Rightarrow> worker_point \<Rightarrow> bool list \<Rightarrow> event list" where
  "worker_steps timeoutMilliseconds point loads =
     (if point = Exited then []
      else if loads_flag point then
        (case loads of
           [] \<Rightarrow> []
         | e # rest \<Rightarrow>
             entering (worker_step e timeoutMilliseconds point)
               @ worker_steps timeoutMilliseconds (worker_step e timeoutMilliseconds point) rest)
      else worker_steps timeoutMilliseconds (worker_step True timeoutMilliseconds point) loads)"
  by pat_completeness auto
termination
proof (relation "measure (\<lambda>(t, point, loads). 2 * length loads + (if loads_flag point then 0 else 1))",
    goal_cases)
  case 1
  show ?case by simp
next
  case (2 timeoutMilliseconds point loads e rest)
  then show ?case by simp
next
  case (3 timeoutMilliseconds point loads)
  then show ?case by (cases point) simp_all
qed

declare worker_steps.simps [simp del]

text \<open>
  \<^verbatim>\<open>thread_.join()\<close> waits until the thread's lambda has returned. While the caller waits
  nobody stores to the flag, so the joined worker goes on with every load reading the flag's
  current value, until it is past the end of its lambda; if it never gets there, the wait
  never ends and the function has no value.
\<close>

partial_function (option) await_exit :: "bool \<Rightarrow> int \<Rightarrow> worker_point \<Rightarrow> worker_point option" where
  "await_exit flag timeoutMilliseconds point =
     (if point = Exited then Some point
      else await_exit flag timeoutMilliseconds (worker_step flag timeoutMilliseconds point))"

text \<open>
  The executor. \<^verbatim>\<open>execute_\<close> is the running flag. \<^verbatim>\<open>thread_\<close> is \<open>Some i\<close> when
  the handle is joinable and stands for thread \<open>i\<close>, \<open>None\<close> when it is not joinable.
  Besides the two members the state holds the threads the instance has to do with:
  \<open>workers i\<close> is the \<^verbatim>\<open>timeoutMilliseconds\<close> and the point of thread \<open>i\<close> (a thread
  not created yet is, like one that has finished, at \<open>Exited\<close>), and \<open>spawned\<close> is the
  number of threads created so far, which names the next one.
\<close>

record CallbackWithTimeout =
  execute :: bool
  thread :: "nat option"
  workers :: "nat \<Rightarrow> int \<times> worker_point"
  spawned :: nat

text \<open>The workers that are executing the callback loop.\<close>

definition live :: "CallbackWithTimeout \<Rightarrow> nat set" where
  "live s = {i. snd (workers s i) \<noteq> Exited}"

text \<open>
  A member function is called by some thread: by a worker of this instance, from inside its
  callback, or by a thread outside (the owner of the instance). A call that does not return
  ends in \<^verbatim>\<open>std::terminate\<close> or waits for ever.
\<close>

datatype caller = Owner | Worker nat

datatype failure = Terminate | NeverReturns

definition CallbackWithTimeout_ctor :: CallbackWithTimeout where
  "CallbackWithTimeout_ctor =
     \<lparr>execute = False, thread = None, workers = (\<lambda>i. (0, Exited)), spawned = 0\<rparr>"

text \<open>
  \<^verbatim>\<open>thread_.join()\<close>, inside a \<^verbatim>\<open>noexcept\<close> member: on a handle that is not joinable,
  and on the calling thread's own handle, it throws \<^verbatim>\<open>std::system_error\<close>, which ends the
  process in \<^verbatim>\<open>std::terminate\<close>; otherwise it waits for the thread and leaves the handle
  not joinable.
\<close>

definition thread_join :: "caller \<Rightarrow> CallbackWithTimeout \<Rightarrow> failure + CallbackWithTimeout" where
  "thread_join c s =
     (case thread s of
        None \<Rightarrow> Inl Terminate
      | Some i \<Rightarrow>
          if c = Worker i then Inl Terminate
          else
            (case await_exit (execute s) (fst (workers s i)) (snd (workers s i)) of
               None \<Rightarrow> Inl NeverReturns
             | Some point \<Rightarrow>
                 Inr (s\<lparr>workers := (workers s)(i := (fst (workers s i), point)),
                         thread := None\<rparr>)))"

definition CallbackWithTimeout_stop :: "caller \<Rightarrow> CallbackWithTimeout \<Rightarrow> failure + CallbackWithTimeout" where
  "CallbackWithTimeout_stop c s =
     (let s1 = s\<lparr>execute := False\<rparr>
      in if thread s1 \<noteq> None then thread_join c s1 else Inr s1)"

text \<open>
  \<^verbatim>\<open>start\<close>: the conditional \<^verbatim>\<open>stop()\<close>, the store of true, and the move assignment of
  a new \<^verbatim>\<open>std::thread\<close>, which begins at the outer test, to \<^verbatim>\<open>thread_\<close>; the assignment
  calls \<^verbatim>\<open>std::terminate\<close> when \<^verbatim>\<open>thread_\<close> is still joinable.
\<close>

definition CallbackWithTimeout_start ::
  "caller \<Rightarrow> int \<Rightarrow> CallbackWithTimeout \<Rightarrow> failure + CallbackWithTimeout" where
  "CallbackWithTimeout_start c timeoutMilliseconds s =
     (case (if execute s then CallbackWithTimeout_stop c s else Inr s) of
        Inl f \<Rightarrow> Inl f
      | Inr s1 \<Rightarrow>
          let s2 = s1\<lparr>execute := True\<rparr>
          in if thread s2 \<noteq> None then Inl Terminate
             else Inr (s2\<lparr>thread := Some (spawned s2),
                          workers := (workers s2)(spawned s2 := (timeoutMilliseconds, OuterTest)),
                          spawned := Suc (spawned s2)\<rparr>))"

text \<open>The two-argument overload is \<^verbatim>\<open>this->start(0, callback, param)\<close>.\<close>

definition CallbackWithTimeout_start0 :: "caller \<Rightarrow> CallbackWithTimeout \<Rightarrow> failure + CallbackWithTimeout" where
  "CallbackWithTimeout_start0 c s = CallbackWithTimeout_start c 0 s"

definition CallbackWithTimeout_isRunning :: "CallbackWithTimeout \<Rightarrow> bool" where
  "CallbackWithTimeout_isRunning s = (execute s \<and> thread s \<noteq> None)"

definition CallbackWithTimeout_dtor :: "caller \<Rightarrow> CallbackWithTimeout \<Rightarrow> failure + CallbackWithTimeout" where
  "CallbackWithTimeout_dtor c s = (if execute s then CallbackWithTimeout_stop c s else Inr s)"

text \<open>
  The states of one instance. Calls of \<^verbatim>\<open>start\<close> and \<^verbatim>\<open>stop\<close> come one after the
  other (the class does not guard \<^verbatim>\<open>thread_\<close>, and leaves that to its callers); a worker
  can make one only from inside its callback. Between the calls, and whatever the calls are,
  any thread may take a step of its loop, loading the flag as it is then.
\<close>

fun may_call :: "caller \<Rightarrow> CallbackWithTimeout \<Rightarrow> bool" where
  "may_call Owner s = True"
| "may_call (Worker i) s = (snd (workers s i) = InCallback)"

inductive reachable :: "CallbackWithTimeout \<Rightarrow> bool" where
  constructed: "reachable CallbackWithTimeout_ctor"
| worker_steps_on:
    "reachable s \<Longrightarrow>
     reachable (s\<lparr>workers := (workers s)(i := (fst (workers s i),
                   worker_step (execute s) (fst (workers s i)) (snd (workers s i))))\<rparr>)"
| start_returns:
    "reachable s \<Longrightarrow> may_call c s \<Longrightarrow> CallbackWithTimeout_start c t s = Inr s' \<Longrightarrow> reachable s'"
| stop_returns:
    "reachable s \<Longrightarrow> may_call c s \<Longrightarrow> CallbackWithTimeout_stop c s = Inr s' \<Longrightarrow> reachable s'"

text \<open>
  The invariant of these states: the flag is set exactly when the handle is joinable, the
  workers in the loop are exactly the handle's thread, and no thread with a number not yet
  given out is in the loop.
\<close>

definition executor_inv :: "CallbackWithTimeout \<Rightarrow> bool" where
  "executor_inv s =
     (execute s = (thread s \<noteq> None)
      \<and> live s = (case thread s of None \<Rightarrow> {} | Some i \<Rightarrow> {i})
      \<and> live s \<subseteq> {i. i < spawned s})"

text \<open>The calling thread is the one \<^verbatim>\<open>thread_\<close> stands for.\<close>

fun calls_from_worker :: "caller \<Rightarrow> CallbackWithTimeout \<Rightarrow> bool" where
  "calls_from_worker Owner s = False"
| "calls_from_worker (Worker i) s = (thread s = Some i)"

text \<open>
  A state for the examples below: the owner has called \<^verbatim>\<open>start(5, callback, param)\<close> on
  a constructed instance, and the worker has passed its first test and is inside the callback.
\<close>

definition in_first_callback :: CallbackWithTimeout where
  "in_first_callback =
     \<lparr>execute = True, thread = Some 0, workers = (\<lambda>i. (0, Exited))(0 := (5, InCallback)),
      spawned = 1\<rparr>"

subsection \<open>RapidJsonProvider.hpp: getValue\<close>

text \<open>
  \<^verbatim>\<open>std::getline(strStream, keyLevel, '/')\<close> on the unread rest of the stream: it fails when
  nothing is left to read; otherwise it stores the characters before the first delimiter (or
  all of them when there is none) and moves past that delimiter. The result is the string
  stored and the unread rest.
\<close>

definition getline :: "string \<Rightarrow> char \<Rightarrow> (string \<times> string) option" where
  "getline stream delim =
     (if stream = [] then None
      else Some (takeWhile (\<lambda>c. c \<noteq> delim) stream, drop 1 (dropWhile (\<lambda>c. c \<noteq> delim) stream)))"

lemma getline_rest_shorter: "getline stream delim = Some (s, rest) \<Longrightarrow> length rest < length stream"
proof -
  assume g: "getline stream delim = Some (s, rest)"
  then have ne: "stream \<noteq> []" and r: "rest = drop 1 (dropWhile (\<lambda>c. c \<noteq> delim) stream)"
    by (auto simp: getline_def split: if_splits)
  have "length (dropWhile (\<lambda>c. c \<noteq> delim) stream) \<le> length stream"
    by (rule length_dropWhile_le)
  with ne r show ?thesis
    by (cases "dropWhile (\<lambda>c. c \<noteq> delim) stream") auto
qed

text \<open>
  The tokenizing loop of \<^verbatim>\<open>getValue\<close>:
  \<^verbatim>\<open>while (std::getline(strStream, keyLevel, '/')) if (!keyLevel.empty()) keyLevels.push_back(keyLevel);\<close>
\<close>

function tokenize :: "string \<Rightarrow> string list \<Rightarrow> string list" where
  "tokenize stream keyLevels =
     (case getline stream CHR ''/'' of
        None \<Rightarrow> keyLevels
      | Some (keyLevel, rest) \<Rightarrow>
          tokenize rest (if keyLevel \<noteq> [] then keyLevels @ [keyLevel] else keyLevels))"
  by pat_completeness auto
termination
  by (relation "measure (\<lambda>(stream, keyLevels). length stream)")
    (auto dest: getline_rest_shorter)

declare tokenize.simps [simp del]

text \<open>
  \<^verbatim>\<open>c_str()\<close> handed to an interface that takes a \<^verbatim>\<open>const char*\<close>: the callee reads up
  to the first NUL character.
\<close>

definition c_str :: "string \<Rightarrow> string" where
  "c_str s = takeWhile (\<lambda>c. c \<noteq> CHR 0x00) s"

text \<open>
  RapidJSON is not part of the sources; its calls are modelled by their documented behaviour.
  \<^verbatim>\<open>HasMember\<close> and \<^verbatim>\<open>operator[]\<close> both go through \<^verbatim>\<open>FindMember\<close>, which asserts that
  the value is an object and returns the first member of that name, if any.
  A failed \<^verbatim>\<open>RAPIDJSON_ASSERT\<close> ends the call without a result.
\<close>

datatype rapidjson_failure = AssertIsObject | EmptyVectorIndexed

fun FindMember :: "json \<Rightarrow> string \<Rightarrow> rapidjson_failure + json option" where
  "FindMember (JObject members) name = Inr (map_of members name)"
| "FindMember _ name = Inl AssertIsObject"

fun IsObject :: "json \<Rightarrow> bool" where
  "IsObject (JObject members) = True"
| "IsObject _ = False"

fun IsString :: "json \<Rightarrow> bool" where
  "IsString (JString s) = True"
| "IsString _ = False"

text \<open>
  \<^verbatim>\<open>GetString()\<close> returns a \<^verbatim>\<open>const char*\<close>, from which \<^verbatim>\<open>push_back\<close> builds the
  \<^verbatim>\<open>std::string\<close>. It is called on strings only.
\<close>

fun GetString :: "json \<Rightarrow> string" where
  "GetString (JString s) = c_str s"
| "GetString _ = []"

text \<open>What a call sends to the logger.\<close>

datatype log_message = LogError string | LogWarn string | LogDebug string

text \<open>
  The \<^verbatim>\<open>for\<close> loop over \<^verbatim>\<open>keyLevels[1..]\<close>, from the current \<^verbatim>\<open>value\<close> and
  \<^verbatim>\<open>parsedKey\<close>; \<open>levels\<close> are the key levels from \<^verbatim>\<open>index\<close> on. The loop ends at the
  end of the levels or by one of its two \<^verbatim>\<open>break\<close>s; the result is \<^verbatim>\<open>value\<close>,
  \<^verbatim>\<open>parsedKey\<close> and the messages logged.
\<close>

fun traverse ::
  "string list \<Rightarrow> json \<Rightarrow> string \<Rightarrow> rapidjson_failure + (json \<times> string \<times> log_message list)" where
  "traverse [] v parsedKey = Inr (v, parsedKey, [])"
| "traverse (keyLevel # levels) v parsedKey =
     (let parsedKey' = parsedKey @ ''/'' @ keyLevel
      in case FindMember v (c_str keyLevel) of
           Inl f \<Rightarrow> Inl f
         | Inr None \<Rightarrow> Inr (v, parsedKey', [LogWarn (''No match for nested key: '' @ parsedKey')])
         | Inr (Some v') \<Rightarrow>
             if IsString v' then Inr (v', parsedKey', [])
             else traverse levels v' parsedKey')"

text \<open>
  \<^verbatim>\<open>getValue(key, values)\<close>. The result is a failed assertion, or the return value, the
  content of \<^verbatim>\<open>values\<close> after the call and the messages logged. The traversal works on
  \<^verbatim>\<open>cloneDoc\<close>, a copy, so \<^verbatim>\<open>doc_\<close> is not changed.
\<close>

definition RapidJsonProvider_getValue ::
  "RapidJsonProvider \<Rightarrow> string \<Rightarrow> string list
     \<Rightarrow> rapidjson_failure + (bool \<times> string list \<times> log_message list)" where
  "RapidJsonProvider_getValue p key values0 =
     (let values = [] in
      if initialized p \<and> key \<noteq> [] then
        let keyLevels = tokenize key [];
            keyLevels = (if keyLevels = [] then keyLevels @ [key] else keyLevels);
            cloneDoc = doc p
        in case keyLevels of
             [] \<Rightarrow> Inl EmptyVectorIndexed
           | parsedKey # levels \<Rightarrow>
               (case FindMember cloneDoc (c_str parsedKey) of
                  Inl f \<Rightarrow> Inl f
                | Inr None \<Rightarrow> Inr (values \<noteq> [], values, [])
                | Inr (Some v) \<Rightarrow>
                    (case (if IsObject v \<and> length keyLevels > 1 then traverse levels v parsedKey
                           else Inr (v, parsedKey, [])) of
                       Inl f \<Rightarrow> Inl f
                     | Inr (v', parsedKey', logged) \<Rightarrow>
                         if IsString v' \<and> 0 = string_compare parsedKey' key then
                           let values = values @ [GetString v']
                           in Inr (values \<noteq> [], values,
                                logged @ [LogDebug (''Found '' @ parsedKey' @ ''='' @ [CHR 0x27]
                                            @ hd values @ [CHR 0x27])])
                         else Inr (values \<noteq> [], values, logged)))
      else Inr (values \<noteq> [], values, []))"

text \<open>
  The notions in which the property of \<^verbatim>\<open>getValue\<close> is stated, defined on their own
  and related to the tokenizing loop below (lemma \<open>tokenize_segments\<close>). The pieces of a key between its \<open>/\<close> characters (a
  key with \<open>n\<close> separators has \<open>n + 1\<close> pieces, some of them possibly empty), its non-empty
  segments, and the path that joins a list of segments with single \<open>/\<close> characters.
\<close>

fun split_slash :: "string \<Rightarrow> string list" where
  "split_slash [] = [[]]"
| "split_slash (c # cs) =
     (if c = CHR ''/'' then [] # split_slash cs
      else (case split_slash cs of
              [] \<Rightarrow> [[c]]
            | piece # pieces \<Rightarrow> (c # piece) # pieces))"

definition segments :: "string \<Rightarrow> string list" where
  "segments key = filter (\<lambda>s. s \<noteq> []) (split_slash key)"

fun join_slash :: "string list \<Rightarrow> string" where
  "join_slash [] = []"
| "join_slash [s] = s"
| "join_slash (s # t # ss) = s @ ''/'' @ join_slash (t # ss)"

definition rebuilt_path :: "string \<Rightarrow> string" where
  "rebuilt_path key = join_slash (segments key)"

section \<open>Properties\<close>

subsection \<open>The queue\<close>

lemma fifo_run_items:
  "queue q @ pushed_items cs = popped_items (fst (fifo_run cs q)) @ queue (snd (fifo_run cs q))"
proof (induction cs arbitrary: q)
  case Nil
  show ?case by simp
next
  case (Cons c cs)
  show ?case
  proof (cases c)
    case (Push x)
    have "queue q @ pushed_items (c # cs) = queue (q\<lparr>queue := queue q @ [x]\<rparr>) @ pushed_items cs"
      using Push by simp
    also have "\<dots> = popped_items (fst (fifo_run cs (q\<lparr>queue := queue q @ [x]\<rparr>)))
        @ queue (snd (fifo_run cs (q\<lparr>queue := queue q @ [x]\<rparr>)))"
      by (rule Cons.IH)
    finally show ?thesis
      using Push by (simp add: FifoMultiThreaded_push_def split: prod.splits)
  next
    case (Pop v)
    show ?thesis
    proof (cases "queue q")
      case Nil
      with Pop Cons.IH [of q] show ?thesis
        by (simp add: FifoMultiThreaded_pop_def split: prod.splits)
    next
      case (Cons front rest)
      with Pop Cons.IH [of "q\<lparr>queue := rest\<rparr>"] show ?thesis
        by (simp add: FifoMultiThreaded_pop_def split: prod.splits)
    qed
  next
    case Empty
    with Cons.IH [of q] show ?thesis by (simp split: prod.splits)
  next
    case Size
    with Cons.IH [of q] show ?thesis by (simp split: prod.splits)
  qed
qed

text \<open>
  C1. For every sequence of calls on one instance, starting from the constructed (empty)
  queue, the items pushed, in push order, are the items the successful pops returned, in pop
  order, followed by the items still in the queue. So the popped items are a prefix of the
  pushed ones: none is duplicated, lost or reordered.
\<close>

theorem fifo_popped_prefix_of_pushed:
  "pushed_items cs =
     popped_items (fst (fifo_run cs FifoMultiThreaded_ctor))
       @ queue (snd (fifo_run cs FifoMultiThreaded_ctor))
   \<and> prefix (popped_items (fst (fifo_run cs FifoMultiThreaded_ctor))) (pushed_items cs)"
proof -
  have "queue (FifoMultiThreaded_ctor :: 'a FifoMultiThreaded) @ pushed_items cs =
      popped_items (fst (fifo_run cs FifoMultiThreaded_ctor))
        @ queue (snd (fifo_run cs FifoMultiThreaded_ctor))"
    by (rule fifo_run_items)
  then have eq: "pushed_items cs =
      popped_items (fst (fifo_run cs FifoMultiThreaded_ctor))
        @ queue (snd (fifo_run cs FifoMultiThreaded_ctor))"
    by (simp add: FifoMultiThreaded_ctor_def)
  then have "prefix (popped_items (fst (fifo_run cs FifoMultiThreaded_ctor))) (pushed_items cs)"
    by (metis prefixI)
  with eq show ?thesis by blast
qed

lemma fifo_run_Cons:
  "fifo_run (c # cs) q =
     (fst (fifo_step c q) # fst (fifo_run cs (snd (fifo_step c q))),
      snd (fifo_run cs (snd (fifo_step c q))))"
  by (simp split: prod.splits)

lemma fifo_step_Pop:
  "fifo_step (Pop v) q =
     (case queue q of [] \<Rightarrow> (PopRet False v, q)
      | front # rest \<Rightarrow> (PopRet True front, q\<lparr>queue := rest\<rparr>))"
  by (simp add: FifoMultiThreaded_pop_def split: list.splits)

lemma fifo_run_counts:
  "length (queue (snd (fifo_run cs q))) + successful_pops (fst (fifo_run cs q))
     = length (queue q) + successful_pushes (fst (fifo_run cs q))
   \<and> successful_pushes (fst (fifo_run cs q)) = length (pushed_items cs)"
proof (induction cs arbitrary: q)
  case Nil
  show ?case by simp
next
  case (Cons c cs)
  show ?case
  proof (cases c)
    case (Push x)
    with Cons.IH [of "q\<lparr>queue := queue q @ [x]\<rparr>"] show ?thesis
      by (simp add: fifo_run_Cons FifoMultiThreaded_push_def del: fifo_run.simps(2))
  next
    case (Pop v)
    show ?thesis
    proof (cases "queue q")
      case Nil
      with Pop Cons.IH [of q] show ?thesis
        by (simp add: fifo_run_Cons fifo_step_Pop del: fifo_run.simps(2) fifo_step.simps(2))
    next
      case (Cons front rest)
      with Pop Cons.IH [of "q\<lparr>queue := rest\<rparr>"] show ?thesis
        by (simp add: fifo_run_Cons fifo_step_Pop del: fifo_run.simps(2) fifo_step.simps(2))
    qed
  next
    case Empty
    with Cons.IH [of q] show ?thesis by (simp add: fifo_run_Cons del: fifo_run.simps(2))
  next
    case Size
    with Cons.IH [of q] show ?thesis by (simp add: fifo_run_Cons del: fifo_run.simps(2))
  qed
qed

text \<open>
  C6. Every \<^verbatim>\<open>push\<close> returns true, so the \<open>k\<close> successful pushes of a call
  sequence are all its pushes. After any call sequence on a constructed queue with \<open>k\<close>
  successful pushes and \<open>j\<close> successful pops, \<open>j \<le> k\<close> and \<^verbatim>\<open>size()\<close> is
  \<open>k - j\<close>.
\<close>

theorem fifo_size_after_pushes_and_pops:
  "FifoMultiThreaded_size (snd (fifo_run cs FifoMultiThreaded_ctor))
     = successful_pushes (fst (fifo_run cs FifoMultiThreaded_ctor))
         - successful_pops (fst (fifo_run cs FifoMultiThreaded_ctor))
   \<and> successful_pops (fst (fifo_run cs FifoMultiThreaded_ctor))
         \<le> successful_pushes (fst (fifo_run cs FifoMultiThreaded_ctor))
   \<and> successful_pushes (fst (fifo_run cs FifoMultiThreaded_ctor)) = length (pushed_items cs)
   \<and> fst (FifoMultiThreaded_push x q) = True"
proof -
  let ?r = "fifo_run cs (FifoMultiThreaded_ctor :: 'a FifoMultiThreaded)"
  have c: "length (queue (snd ?r)) + successful_pops (fst ?r)
      = length (queue (FifoMultiThreaded_ctor :: 'a FifoMultiThreaded)) + successful_pushes (fst ?r)"
    and p: "successful_pushes (fst ?r) = length (pushed_items cs)"
    using fifo_run_counts [of cs FifoMultiThreaded_ctor] by blast+
  from c have "length (queue (snd ?r)) + successful_pops (fst ?r) = successful_pushes (fst ?r)"
    by (simp add: FifoMultiThreaded_ctor_def)
  then have "FifoMultiThreaded_size (snd ?r) = successful_pushes (fst ?r) - successful_pops (fst ?r)"
    and "successful_pops (fst ?r) \<le> successful_pushes (fst ?r)"
    by (simp_all add: FifoMultiThreaded_size_def)
  with p show ?thesis
    by (simp add: FifoMultiThreaded_push_def)
qed

text \<open>
  C5. \<^verbatim>\<open>pop\<close> on an empty queue returns false and leaves the argument variable and
  the queue as they were; a constructed queue has size 0 and is empty.
\<close>

theorem fifo_pop_empty_and_fresh:
  "(FifoMultiThreaded_empty q \<longrightarrow> FifoMultiThreaded_pop element q = (False, element, q))
   \<and> FifoMultiThreaded_size (FifoMultiThreaded_ctor :: 'a FifoMultiThreaded) = 0
   \<and> FifoMultiThreaded_empty (FifoMultiThreaded_ctor :: 'a FifoMultiThreaded)"
  for q :: "'a FifoMultiThreaded"
  by (simp add: FifoMultiThreaded_empty_def FifoMultiThreaded_pop_def
      FifoMultiThreaded_size_def FifoMultiThreaded_ctor_def)

theorem fifo_pop_empty_and_fresh_witness:
  "FifoMultiThreaded_empty (FifoMultiThreaded_ctor :: string FifoMultiThreaded)
   \<and> FifoMultiThreaded_pop ''out'' (FifoMultiThreaded_ctor :: string FifoMultiThreaded)
       = (False, ''out'', FifoMultiThreaded_ctor)"
  using fifo_pop_empty_and_fresh [of "FifoMultiThreaded_ctor :: string FifoMultiThreaded" "''out''"]
  by (simp add: FifoMultiThreaded_ctor_def FifoMultiThreaded_empty_def)

subsection \<open>The logger interface\<close>

lemma string_compare_eq_0: "(0 = string_compare a b) = (a = b)"
  by (induction a b rule: string_compare.induct) auto

lemma setLevel_string_cases:
  "ILogProvider_setLevel_string setLevel level =
     setLevel (if level = ''trace'' then 0x3F else if level = ''debug'' then 0x1F
       else if level = ''info'' then 0xF else if level = ''warn'' then 0x7
       else if level = ''error'' then 0x3 else if level = ''fatal'' then 0x1
       else if level = ''off'' then 0x0 else 0x7F)"
  unfolding ILogProvider_setLevel_string_def Let_def string_compare_eq_0
    traceTag_def debugTag_def infoTag_def warnTag_def errorTag_def fatalTag_def offTag_def
  by simp

text \<open>
  C7. The string overload of \<^verbatim>\<open>setLevel\<close> forwards to the numeric \<^verbatim>\<open>setLevel\<close> the
  value of \<^verbatim>\<open>LL_TRACE\<close>, \<^verbatim>\<open>LL_DEBUG\<close>, \<^verbatim>\<open>LL_INFO\<close>, \<^verbatim>\<open>LL_WARN\<close>,
  \<^verbatim>\<open>LL_ERROR\<close>, \<^verbatim>\<open>LL_FATAL\<close>, \<^verbatim>\<open>LL_OFF\<close> for exactly the strings \<open>trace\<close>,
  \<open>debug\<close>, \<open>info\<close>, \<open>warn\<close>, \<open>error\<close>, \<open>fatal\<close>, \<open>off\<close>, and the value of
  \<^verbatim>\<open>LL_ALL\<close> (\<open>0x7F\<close>) for every other string.
\<close>

theorem setLevel_string_forwards:
  "ILogProvider_setLevel_string setLevel ''trace'' = setLevel (LogLevel_value LL_TRACE)
   \<and> ILogProvider_setLevel_string setLevel ''debug'' = setLevel (LogLevel_value LL_DEBUG)
   \<and> ILogProvider_setLevel_string setLevel ''info'' = setLevel (LogLevel_value LL_INFO)
   \<and> ILogProvider_setLevel_string setLevel ''warn'' = setLevel (LogLevel_value LL_WARN)
   \<and> ILogProvider_setLevel_string setLevel ''error'' = setLevel (LogLevel_value LL_ERROR)
   \<and> ILogProvider_setLevel_string setLevel ''fatal'' = setLevel (LogLevel_value LL_FATAL)
   \<and> ILogProvider_setLevel_string setLevel ''off'' = setLevel (LogLevel_value LL_OFF)
   \<and> (level \<notin> {''trace'', ''debug'', ''info'', ''warn'', ''error'', ''fatal'', ''off''} \<longrightarrow>
        ILogProvider_setLevel_string setLevel level = setLevel (LogLevel_value LL_ALL))
   \<and> LogLevel_value LL_ALL = 0x7F"
  by (simp add: setLevel_string_cases)

theorem setLevel_string_forwards_witness:
  "''TRACE'' \<notin> {''trace'', ''debug'', ''info'', ''warn'', ''error'', ''fatal'', ''off''}
   \<and> ILogProvider_setLevel_string (\<lambda>l. l) ''TRACE'' = 0x7F
   \<and> ILogProvider_setLevel_string (\<lambda>l. l) ''warn'' = 0x7"
  using setLevel_string_forwards [of "\<lambda>l. l" "''TRACE''"]
  by simp

subsection \<open>The log4cpp provider\<close>

text \<open>
  C9. Once \<^verbatim>\<open>start()\<close> has succeeded, \<^verbatim>\<open>setLevel(int)\<close> returns true for every level
  and leaves the provider, the log4cpp library's state and \<^verbatim>\<open>std::cerr\<close> as they were,
  whatever \<^verbatim>\<open>setRootPriority\<close> would do when called: the call is behind the second
  \<^verbatim>\<open>!started_\<close> test, which is false here, so it is not made.
\<close>

theorem setLevel_after_start_no_effect:
  "Log4CppLoggerProvider_start configure p = (True, p') \<Longrightarrow>
     started p' \<and> Log4CppLoggerProvider_setLevel setRootPriority level p' = (True, p')"
  by (auto simp: Log4CppLoggerProvider_start_def Log4CppLoggerProvider_setLevel_def Let_def
      split: if_splits sum.splits)

theorem setLevel_after_start_no_effect_witness:
  "Log4CppLoggerProvider_start (\<lambda>file lib. Inr (lib @ [''configure '' @ file]))
       (Log4CppLoggerProvider_ctor ''log.properties'' [])
     = (True, \<lparr>propertiesFile = ''log.properties'', started = True,
               log4cpp = [''configure log.properties''], cerr = []\<rparr>)
   \<and> Log4CppLoggerProvider_setLevel (\<lambda>prio lib. Inr (lib @ [''setRootPriority'']))
       (LogLevel_value LL_WARN)
       \<lparr>propertiesFile = ''log.properties'', started = True,
         log4cpp = [''configure log.properties''], cerr = []\<rparr>
     = (True, \<lparr>propertiesFile = ''log.properties'', started = True,
               log4cpp = [''configure log.properties''], cerr = []\<rparr>)"
proof -
  have s: "Log4CppLoggerProvider_start (\<lambda>file lib. Inr (lib @ [''configure '' @ file]))
       (Log4CppLoggerProvider_ctor ''log.properties'' [])
     = (True, \<lparr>propertiesFile = ''log.properties'', started = True,
               log4cpp = [''configure log.properties''], cerr = []\<rparr>)"
    by (simp add: Log4CppLoggerProvider_start_def Log4CppLoggerProvider_ctor_def)
  from setLevel_after_start_no_effect [OF s] s show ?thesis
    by blast
qed

subsection \<open>The JSON provider: unsupported operations\<close>

text \<open>
  C8. For every key and value \<^verbatim>\<open>setValue\<close> returns false, and for every key
  \<^verbatim>\<open>getKeyValue\<close> returns false (and leaves \<^verbatim>\<open>values\<close> alone), whatever the document.
\<close>

theorem setValue_getKeyValue_unsupported:
  "RapidJsonProvider_setValue p k v = False
   \<and> RapidJsonProvider_getKeyValue p k values = (False, values)"
  by (simp add: RapidJsonProvider_setValue_def RapidJsonProvider_getKeyValue_def)

subsection \<open>The executor's worker loop\<close>

lemma total_sleep_replicate: "total_sleep (replicate k (Sleep ms)) = int k * ms"
  by (induction k) (simp_all add: algebra_simps)

lemma sleep_loop_Cons:
  "sleep_loop maxSteps step (e # loads) =
     (if e \<and> step < maxSteps then
        (Sleep timeSliceMilliseconds # fst (sleep_loop maxSteps (step + 1) loads),
         snd (sleep_loop maxSteps (step + 1) loads))
      else ([], loads))"
  by (simp split: prod.splits)

lemma sleep_loop_flag_set:
  "fst (sleep_loop maxSteps step (replicate n True))
     = replicate (min n (nat (maxSteps - step))) (Sleep timeSliceMilliseconds)"
proof (induction n arbitrary: step)
  case 0
  show ?case by simp
next
  case (Suc n)
  show ?case
  proof (cases "step < maxSteps")
    case True
    then have "min (Suc n) (nat (maxSteps - step)) = Suc (min n (nat (maxSteps - (step + 1))))"
      by auto
    with True Suc.IH [of "step + 1"] show ?thesis
      by (simp add: sleep_loop_Cons del: sleep_loop.simps(2))
  next
    case False
    then show ?thesis by simp
  qed
qed

text \<open>
  What the loop does for a non-negative interval while the flag stays set for at least
  \<open>timeoutMilliseconds div 25\<close> loads: it sleeps \<open>timeoutMilliseconds div 25\<close> slices of 25
  milliseconds, the interval rounded down to a multiple of the slice.
\<close>

lemma sleep_loop_total:
  assumes "0 \<le> timeoutMilliseconds" and "nat (timeoutMilliseconds div 25) \<le> n"
  shows "total_sleep (fst (sleep_loop (cpp_div timeoutMilliseconds timeSliceMilliseconds) 0
            (replicate n True)))
         = timeoutMilliseconds - timeoutMilliseconds mod 25"
proof -
  have d: "cpp_div timeoutMilliseconds timeSliceMilliseconds = timeoutMilliseconds div 25"
    using assms(1) by (simp add: cpp_div_def timeSliceMilliseconds_def)
  have "0 \<le> timeoutMilliseconds div 25"
    using assms(1) by simp
  with assms(2) have "min n (nat (timeoutMilliseconds div 25 - 0)) = nat (timeoutMilliseconds div 25)"
    by simp
  then have "total_sleep (fst (sleep_loop (timeoutMilliseconds div 25) 0 (replicate n True)))
      = int (nat (timeoutMilliseconds div 25)) * timeSliceMilliseconds"
    by (simp only: sleep_loop_flag_set total_sleep_replicate)
  also have "\<dots> = (timeoutMilliseconds div 25) * 25"
    using \<open>0 \<le> timeoutMilliseconds div 25\<close> by (simp add: timeSliceMilliseconds_def)
  also have "\<dots> = timeoutMilliseconds - timeoutMilliseconds mod 25"
    by (simp add: minus_mod_eq_div_mult)
  finally show ?thesis
    using d by simp
qed

text \<open>
  C2. The property asks that, while the flag stays set, the slices slept after a callback add
  up to at least \<^verbatim>\<open>timeoutMilliseconds\<close>. The code evaluated at
  \<^verbatim>\<open>timeoutMilliseconds = 10\<close>: \<^verbatim>\<open>maxSteps\<close> is \<open>10 / 25 = 0\<close>, so the inner loop
  sleeps no slice whatever the flag reads, and with the flag set throughout the callbacks
  follow each other with a cumulative sleep of 0 milliseconds, less than the 10 asked for.
  The division drops the part of the interval below one slice (lemma \<open>sleep_loop_total\<close>).
\<close>

theorem interval_10_sleeps_nothing:
  "fst (sleep_loop (cpp_div 10 timeSliceMilliseconds) 0 loads) = []
   \<and> worker 10 [True, True, True, True] = [Callback, Callback]
   \<and> total_sleep (worker 10 [True, True, True, True]) < 10"
proof -
  have m: "cpp_div 10 timeSliceMilliseconds = 0"
    by (simp add: cpp_div_def timeSliceMilliseconds_def)
  have a: "fst (sleep_loop 0 0 loads) = []"
    by (cases loads) simp_all
  have b: "worker 10 [True, True, True, True] = [Callback, Callback]"
    by (simp add: m)
  show ?thesis
    using a b by (simp add: m)
qed

lemma sleep_loop_zero: "sleep_loop 0 0 loads = ([], tl loads)"
  by (cases loads) simp_all

lemma cpp_div_zero: "cpp_div 0 timeSliceMilliseconds = 0"
  by (simp add: cpp_div_def)

lemma worker_zero_Cons: "worker 0 (True # loads) = Callback # worker 0 (tl loads)"
  by (simp add: cpp_div_zero sleep_loop_zero)

lemma worker_zero_all_callbacks: "worker 0 loads = replicate (length (worker 0 loads)) Callback"
proof (induction "length loads" arbitrary: loads rule: less_induct)
  case less
  show ?case
  proof (cases loads)
    case Nil
    then show ?thesis by simp
  next
    case (Cons e rest)
    show ?thesis
    proof (cases e)
      case True
      have "length (tl rest) < length loads"
        using Cons by simp
      then have "worker 0 (tl rest) = replicate (length (worker 0 (tl rest))) Callback"
        by (rule less)
      then show ?thesis
        using Cons True by (simp add: worker_zero_Cons del: worker.simps)
    next
      case False
      then show ?thesis using Cons by simp
    qed
  qed
qed

lemma worker_zero_flag_set:
  "worker 0 (replicate (2 * k) True) = replicate k Callback
   \<and> worker 0 (replicate (Suc (2 * k)) True) = replicate (Suc k) Callback"
proof (induction k)
  case 0
  show ?case by (simp add: worker_zero_Cons del: worker.simps(2))
next
  case (Suc k)
  then show ?case
    by (simp add: worker_zero_Cons del: worker.simps(2))
qed

lemma worker_zero_count: "worker 0 (replicate n True) = replicate ((n + 1) div 2) Callback"
proof (cases "even n")
  case True
  then obtain k where "n = 2 * k" by (auto elim: evenE)
  then show ?thesis using worker_zero_flag_set [of k] by simp
next
  case False
  then obtain k where "n = Suc (2 * k)" by (auto elim: oddE)
  then show ?thesis using worker_zero_flag_set [of k] by simp
qed

text \<open>
  C4. With \<^verbatim>\<open>timeoutMilliseconds = 0\<close> the inner loop sleeps no slice, whatever the flag
  reads; the worker's trace consists of callbacks only, so nothing separates two consecutive
  invocations. Each iteration makes two loads (the outer test and one inner test), so while
  the flag stays set for \<open>n\<close> loads the callback runs \<open>(n + 1) div 2\<close> times: at least twice
  as soon as the flag stays set for three loads.
\<close>

theorem zero_interval_back_to_back:
  "fst (sleep_loop (cpp_div 0 timeSliceMilliseconds) 0 loads) = []
   \<and> worker 0 loads = replicate (length (worker 0 loads)) Callback
   \<and> total_sleep (worker 0 loads) = 0
   \<and> worker 0 (replicate n True) = replicate ((n + 1) div 2) Callback
   \<and> 2 \<le> length (worker 0 (replicate (n + 3) True))"
proof -
  have a: "fst (sleep_loop (cpp_div 0 timeSliceMilliseconds) 0 loads) = []"
    by (simp add: cpp_div_zero sleep_loop_zero)
  have b: "worker 0 loads = replicate (length (worker 0 loads)) Callback"
    by (rule worker_zero_all_callbacks)
  have "total_sleep (replicate k Callback) = 0" for k
    by (induction k) simp_all
  with b have c: "total_sleep (worker 0 loads) = 0"
    by metis
  have d: "worker 0 (replicate n True) = replicate ((n + 1) div 2) Callback"
    by (rule worker_zero_count)
  have "length (worker 0 (replicate (n + 3) True)) = (n + 3 + 1) div 2"
    by (simp only: worker_zero_count length_replicate)
  then have e: "2 \<le> length (worker 0 (replicate (n + 3) True))"
    by simp
  from a b c d e show ?thesis by blast
qed

subsection \<open>The executor's start and stop\<close>

lemma worker_steps_Exited: "worker_steps t Exited loads = []"
  by (simp add: worker_steps.simps)

lemma worker_steps_InCallback: "worker_steps t InCallback loads = worker_steps t (InnerTest 0) loads"
  by (subst worker_steps.simps) simp

lemma worker_steps_Sleeping: "worker_steps t (Sleeping step) loads = worker_steps t (InnerTest step) loads"
  by (subst worker_steps.simps) simp

lemma worker_steps_OuterTest:
  "worker_steps t OuterTest loads =
     (case loads of [] \<Rightarrow> []
      | e # rest \<Rightarrow> if e then Callback # worker_steps t (InnerTest 0) rest else [])"
  by (subst worker_steps.simps)
    (simp add: worker_steps_Exited worker_steps_InCallback split: list.splits)

lemma worker_steps_InnerTest:
  "worker_steps t (InnerTest step) loads =
     (case loads of [] \<Rightarrow> []
      | e # rest \<Rightarrow>
          if e \<and> step < cpp_div t timeSliceMilliseconds
          then Sleep timeSliceMilliseconds # worker_steps t (InnerTest (step + 1)) rest
          else worker_steps t OuterTest rest)"
  by (subst worker_steps.simps) (auto simp: worker_steps_Sleeping split: list.splits)

text \<open>The loop taken step by step has the trace of \<open>worker\<close>.\<close>

lemma worker_steps_trace_both:
  "(\<forall>step. worker_steps t (InnerTest step) loads =
      fst (sleep_loop (cpp_div t timeSliceMilliseconds) step loads)
        @ worker t (snd (sleep_loop (cpp_div t timeSliceMilliseconds) step loads)))
   \<and> worker_steps t OuterTest loads = worker t loads"
proof (induction loads)
  case Nil
  show ?case
    by (simp add: worker_steps_OuterTest worker_steps_InnerTest)
next
  case (Cons e rest)
  have inner: "worker_steps t (InnerTest step) (e # rest) =
      fst (sleep_loop (cpp_div t timeSliceMilliseconds) step (e # rest))
        @ worker t (snd (sleep_loop (cpp_div t timeSliceMilliseconds) step (e # rest)))" for step
    using Cons.IH
    by (subst worker_steps_InnerTest) (simp add: sleep_loop_Cons del: sleep_loop.simps(2))
  have outer: "worker_steps t OuterTest (e # rest) = worker t (e # rest)"
    using Cons.IH
    by (subst worker_steps_OuterTest) (simp split: prod.splits)
  from inner outer show ?case by blast
qed

lemma worker_steps_trace: "worker_steps t OuterTest loads = worker t loads"
  using worker_steps_trace_both by blast

text \<open>With the flag cleared a worker leaves its loop from every point; with the flag set, from none.\<close>

lemma await_exit_Exited: "await_exit flag t Exited = Some Exited"
  by (subst await_exit.simps) simp

lemma await_exit_next:
  "point \<noteq> Exited \<Longrightarrow> await_exit flag t point = await_exit flag t (worker_step flag t point)"
  by (subst await_exit.simps) simp

lemma await_exit_cleared: "await_exit False t point = Some Exited"
proof -
  have outer: "await_exit False t OuterTest = Some Exited"
    by (simp add: await_exit_next await_exit_Exited)
  have inner: "await_exit False t (InnerTest step) = Some Exited" for step
    by (simp add: await_exit_next outer)
  show ?thesis
    by (cases point) (simp_all add: await_exit_next await_exit_Exited outer inner)
qed

lemma worker_step_set_stays: "point \<noteq> Exited \<Longrightarrow> worker_step True t point \<noteq> Exited"
  by (cases point) simp_all

lemma await_exit_Some:
  assumes "await_exit flag t point = Some r"
  shows "flag \<longrightarrow> point = Exited"
proof (rule await_exit.raw_induct [where P = "\<lambda>flag t point r. flag \<longrightarrow> point = Exited", OF _ assms])
  fix f :: "bool \<Rightarrow> int \<Rightarrow> worker_point \<Rightarrow> worker_point option"
    and flag t point r
  assume IH: "\<And>flag t point r. f flag t point = Some r \<Longrightarrow> flag \<longrightarrow> point = Exited"
    and eq: "(if point = Exited then Some point else f flag t (worker_step flag t point)) = Some r"
  show "flag \<longrightarrow> point = Exited"
  proof (intro impI, rule ccontr)
    assume flag and ne: "point \<noteq> Exited"
    with eq have "f flag t (worker_step flag t point) = Some r"
      by simp
    from IH [OF this] \<open>flag\<close> have "worker_step flag t point = Exited"
      by simp
    moreover from ne have "worker_step True t point \<noteq> Exited"
      by (rule worker_step_set_stays)
    ultimately show False
      using \<open>flag\<close> by simp
  qed
qed

lemma await_exit_set: "point \<noteq> Exited \<Longrightarrow> await_exit True t point = None"
  using await_exit_Some [of True t point] by (cases "await_exit True t point") auto

lemma executor_inv_ctor: "executor_inv CallbackWithTimeout_ctor"
  by (simp add: executor_inv_def CallbackWithTimeout_ctor_def live_def)

lemma live_upd_Exited: "live (s\<lparr>workers := (workers s)(i := (t, Exited))\<rparr>) = live s - {i}"
  by (auto simp: live_def)

lemma live_upd_other: "point \<noteq> Exited \<Longrightarrow> live (s\<lparr>workers := (workers s)(i := (t, point))\<rparr>) = insert i (live s)"
  by (auto simp: live_def)

lemma live_execute_upd: "live (s\<lparr>execute := b\<rparr>) = live s"
  by (simp add: live_def)

lemma live_thread_upd: "live (s\<lparr>thread := h\<rparr>) = live s"
  by (simp add: live_def)

lemma live_spawned_upd: "live (s\<lparr>spawned := n\<rparr>) = live s"
  by (simp add: live_def)

text \<open>\<^verbatim>\<open>stop\<close> called by a thread other than the handle's.\<close>

lemma stop_returns_state:
  assumes "executor_inv s" and "\<not> calls_from_worker c s"
  shows "\<exists>s1. CallbackWithTimeout_stop c s = Inr s1 \<and> \<not> execute s1 \<and> thread s1 = None
    \<and> live s1 = {} \<and> spawned s1 = spawned s \<and> executor_inv s1"
proof (cases "thread s")
  case None
  with assms(1) have l: "live s = {}"
    by (simp add: executor_inv_def)
  have "CallbackWithTimeout_stop c s = Inr (s\<lparr>execute := False\<rparr>)"
    using None by (simp add: CallbackWithTimeout_stop_def Let_def)
  moreover have "executor_inv (s\<lparr>execute := False\<rparr>)"
    using None l by (simp add: executor_inv_def live_execute_upd)
  ultimately show ?thesis
    using None l by (simp add: live_execute_upd)
next
  case (Some i)
  with assms(1) have l: "live s = {i}"
    by (simp add: executor_inv_def)
  from Some assms(2) have c: "c \<noteq> Worker i"
    by (cases c) auto
  let ?s1 = "s\<lparr>execute := False, workers := (workers s)(i := (fst (workers s i), Exited)), thread := None\<rparr>"
  have "CallbackWithTimeout_stop c s = Inr ?s1"
    using Some c
    by (simp add: CallbackWithTimeout_stop_def thread_join_def Let_def await_exit_cleared)
  moreover have l1: "live ?s1 = {}"
    using l by (auto simp: live_def)
  moreover have "executor_inv ?s1"
    using l1 by (simp add: executor_inv_def)
  ultimately show ?thesis
    by simp
qed

text \<open>\<^verbatim>\<open>stop\<close> and \<^verbatim>\<open>start\<close> called by the handle's own thread.\<close>

lemma stop_from_worker:
  assumes "calls_from_worker c s"
  shows "CallbackWithTimeout_stop c s = Inl Terminate"
proof -
  from assms obtain i where "c = Worker i" "thread s = Some i"
    by (cases c) auto
  then show ?thesis
    by (simp add: CallbackWithTimeout_stop_def thread_join_def Let_def)
qed

lemma start_from_worker:
  assumes "executor_inv s" and "calls_from_worker c s"
  shows "CallbackWithTimeout_start c t s = Inl Terminate"
proof -
  from assms(2) obtain i where "thread s = Some i"
    by (cases c) auto
  with assms(1) have "execute s"
    by (simp add: executor_inv_def)
  then show ?thesis
    by (simp add: CallbackWithTimeout_start_def stop_from_worker [OF assms(2)])
qed

lemma start_on_stopped:
  assumes "\<not> execute s1" and "thread s1 = None" and "live s1 = {}"
  shows "\<exists>s'. CallbackWithTimeout_start c t s1 = Inr s' \<and> execute s' \<and> thread s' = Some (spawned s1)
    \<and> live s' = {spawned s1} \<and> workers s' (spawned s1) = (t, OuterTest)
    \<and> spawned s' = Suc (spawned s1)"
proof -
  let ?s' = "s1\<lparr>execute := True, thread := Some (spawned s1),
      workers := (workers s1)(spawned s1 := (t, OuterTest)), spawned := Suc (spawned s1)\<rparr>"
  have "CallbackWithTimeout_start c t s1 = Inr ?s'"
    using assms(1,2) by (simp add: CallbackWithTimeout_start_def Let_def)
  moreover have "live ?s' = {spawned s1}"
    using assms(3) by (auto simp: live_def)
  ultimately show ?thesis
    by simp
qed

lemma start_returns_state:
  assumes "executor_inv s" and "\<not> calls_from_worker c s"
  shows "\<exists>s'. CallbackWithTimeout_start c t s = Inr s' \<and> execute s' \<and> thread s' = Some (spawned s)
    \<and> live s' = {spawned s} \<and> workers s' (spawned s) = (t, OuterTest)
    \<and> spawned s' = Suc (spawned s)
    \<and> (\<forall>s1. CallbackWithTimeout_stop c s = Inr s1 \<longrightarrow> CallbackWithTimeout_start c t s1 = Inr s')"
proof -
  from stop_returns_state [OF assms] obtain s1 where
    s1: "CallbackWithTimeout_stop c s = Inr s1" "\<not> execute s1" "thread s1 = None" "live s1 = {}"
      "spawned s1 = spawned s"
    by blast
  from start_on_stopped [OF s1(2,3,4), of c t] obtain s' where
    s': "CallbackWithTimeout_start c t s1 = Inr s'" "execute s'" "thread s' = Some (spawned s)"
      "live s' = {spawned s}" "workers s' (spawned s) = (t, OuterTest)" "spawned s' = Suc (spawned s)"
    using s1(5) by auto
  have "CallbackWithTimeout_start c t s = Inr s'"
  proof (cases "execute s")
    case True
    have "CallbackWithTimeout_start c t s1 = CallbackWithTimeout_start c t s"
      using True s1(1,2) by (simp add: CallbackWithTimeout_start_def)
    with s'(1) show ?thesis by simp
  next
    case False
    with assms(1) have "thread s = None"
      by (simp add: executor_inv_def)
    then have "CallbackWithTimeout_stop c s = Inr (s\<lparr>execute := False\<rparr>)"
      by (simp add: CallbackWithTimeout_stop_def Let_def)
    with s1(1) have "s1 = s\<lparr>execute := False\<rparr>"
      by simp
    with False have "s1 = s"
      by simp
    with s'(1) show ?thesis by simp
  qed
  with s' s1(1) show ?thesis
    by simp
qed

lemma executor_inv_start:
  assumes "executor_inv s" and "CallbackWithTimeout_start c t s = Inr s'"
  shows "executor_inv s'"
proof -
  have "\<not> calls_from_worker c s"
    using start_from_worker [OF assms(1), of c t] assms(2) by auto
  from start_returns_state [OF assms(1) this, of t] assms(2)
  have "execute s'" "thread s' = Some (spawned s)" "live s' = {spawned s}" "spawned s' = Suc (spawned s)"
    by auto
  then show ?thesis
    by (simp add: executor_inv_def)
qed

lemma executor_inv_stop:
  assumes "executor_inv s" and "CallbackWithTimeout_stop c s = Inr s1"
  shows "executor_inv s1"
proof -
  have "\<not> calls_from_worker c s"
    using stop_from_worker [of c s] assms(2) by auto
  from stop_returns_state [OF assms(1) this] assms(2) show ?thesis
    by auto
qed

lemma executor_inv_worker_step:
  assumes "executor_inv s"
  shows "executor_inv (s\<lparr>workers := (workers s)(i := (fst (workers s i),
           worker_step (execute s) (fst (workers s i)) (snd (workers s i))))\<rparr>)"
proof (cases "snd (workers s i) = Exited")
  case True
  then have "(workers s)(i := (fst (workers s i),
      worker_step (execute s) (fst (workers s i)) (snd (workers s i)))) = workers s"
    by (auto simp: fun_eq_iff) (metis prod.collapse)
  with assms show ?thesis by simp
next
  case False
  then have "i \<in> live s"
    by (simp add: live_def)
  with assms have "thread s = Some i" "execute s"
    by (auto simp: executor_inv_def split: option.splits)
  with False have "worker_step (execute s) (fst (workers s i)) (snd (workers s i)) \<noteq> Exited"
    by (simp add: worker_step_set_stays)
  then have "live (s\<lparr>workers := (workers s)(i := (fst (workers s i),
      worker_step (execute s) (fst (workers s i)) (snd (workers s i))))\<rparr>) = insert i (live s)"
    by (rule live_upd_other)
  also have "\<dots> = live s"
    using \<open>i \<in> live s\<close> by (rule insert_absorb)
  finally have l: "live (s\<lparr>workers := (workers s)(i := (fst (workers s i),
      worker_step (execute s) (fst (workers s i)) (snd (workers s i))))\<rparr>) = live s" .
  show ?thesis
    unfolding executor_inv_def l using assms [unfolded executor_inv_def] by auto
qed

lemma reachable_inv: "reachable s \<Longrightarrow> executor_inv s"
proof (induction rule: reachable.induct)
  case constructed
  show ?case by (rule executor_inv_ctor)
next
  case (worker_steps_on s i)
  then show ?case by (simp add: executor_inv_worker_step)
next
  case (start_returns s c t s')
  then show ?case by (blast intro: executor_inv_start)
next
  case (stop_returns s c s')
  then show ?case by (blast intro: executor_inv_stop)
qed

lemma reachable_in_first_callback: "reachable in_first_callback"
proof -
  let ?s0 = "\<lparr>execute = True, thread = Some 0, workers = (\<lambda>i. (0, Exited))(0 := (5, OuterTest)),
      spawned = 1\<rparr>"
  have e: "CallbackWithTimeout_start Owner 5 CallbackWithTimeout_ctor = Inr ?s0"
    by (simp add: CallbackWithTimeout_start_def CallbackWithTimeout_ctor_def Let_def)
  have r0: "reachable ?s0"
    by (rule reachable.start_returns [OF reachable.constructed _ e]) simp
  have "reachable (?s0\<lparr>workers := (workers ?s0)(0 := (fst (workers ?s0 0),
      worker_step (execute ?s0) (fst (workers ?s0 0)) (snd (workers ?s0 0))))\<rparr>)"
    using r0 by (rule reachable.worker_steps_on)
  then show ?thesis
    by (simp add: in_first_callback_def)
qed

text \<open>
  The order of the two statements of \<^verbatim>\<open>stop\<close> matters: a join of the running worker
  before the flag is cleared never returns.
\<close>

lemma join_with_flag_set_never_returns: "thread_join Owner in_first_callback = Inl NeverReturns"
  by (simp add: thread_join_def in_first_callback_def await_exit_set)

text \<open>A worker inside its callback is the worker \<^verbatim>\<open>thread_\<close> stands for.\<close>

lemma callback_caller_is_handle:
  assumes "reachable s" and "may_call (Worker i) s"
  shows "calls_from_worker (Worker i) s"
proof -
  from assms(2) have "i \<in> live s"
    by (simp add: live_def)
  moreover from assms(1) have "live s = (case thread s of None \<Rightarrow> {} | Some j \<Rightarrow> {j})"
    using reachable_inv by (simp add: executor_inv_def)
  ultimately show ?thesis
    by (cases "thread s") simp_all
qed

text \<open>
  C3, as amended. In every state an instance reaches, at most one worker is in the callback
  loop, the one \<^verbatim>\<open>thread_\<close> stands for, and \<^verbatim>\<open>isRunning\<close> tells whether there is one.
  Called by any thread but that worker, \<^verbatim>\<open>stop\<close> returns with the flag cleared and no
  worker in the loop (the joined worker has left it on loading the cleared flag), and
  \<^verbatim>\<open>start\<close> does what it does on the stopped state: it returns with the flag set and
  exactly one worker in the loop, a thread created by this call and at the beginning of its
  loop; the destructor leaves no worker in the loop. Called by the worker itself, from inside
  its callback (a thread inside the callback is always that worker), \<^verbatim>\<open>stop\<close> and
  \<^verbatim>\<open>start\<close> join the calling thread and end in \<^verbatim>\<open>std::terminate\<close>.
\<close>

theorem executor_single_worker:
  assumes "reachable s"
  shows "live s = (case thread s of None \<Rightarrow> {} | Some i \<Rightarrow> {i})
    \<and> card (live s) \<le> 1
    \<and> CallbackWithTimeout_isRunning s = (live s \<noteq> {})
    \<and> (\<not> calls_from_worker c s \<longrightarrow>
         (\<exists>s1. CallbackWithTimeout_stop c s = Inr s1 \<and> \<not> execute s1 \<and> live s1 = {}
            \<and> (\<exists>s'. CallbackWithTimeout_start c t s1 = Inr s'
                  \<and> CallbackWithTimeout_start c t s = Inr s'
                  \<and> execute s' \<and> thread s' = Some (spawned s) \<and> live s' = {spawned s}
                  \<and> workers s' (spawned s) = (t, OuterTest) \<and> spawned s \<notin> live s))
         \<and> (\<exists>s2. CallbackWithTimeout_dtor c s = Inr s2 \<and> live s2 = {}))
    \<and> (calls_from_worker c s \<longrightarrow>
         CallbackWithTimeout_stop c s = Inl Terminate
         \<and> CallbackWithTimeout_start c t s = Inl Terminate)
    \<and> (c \<noteq> Owner \<and> may_call c s \<longrightarrow> calls_from_worker c s)
    \<and> CallbackWithTimeout_start0 c s = CallbackWithTimeout_start c 0 s"
proof -
  from assms have inv: "executor_inv s"
    by (rule reachable_inv)
  then have l: "live s = (case thread s of None \<Rightarrow> {} | Some i \<Rightarrow> {i})"
    and fl: "execute s = (thread s \<noteq> None)"
    and fresh: "live s \<subseteq> {i. i < spawned s}"
    unfolding executor_inv_def by blast+
  from l have card: "card (live s) \<le> 1"
    by (simp split: option.splits)
  from l fl have running: "CallbackWithTimeout_isRunning s = (live s \<noteq> {})"
    by (cases "thread s") (simp_all add: CallbackWithTimeout_isRunning_def)
  from fresh have new: "spawned s \<notin> live s"
    by auto
  have outside: "(\<exists>s1. CallbackWithTimeout_stop c s = Inr s1 \<and> \<not> execute s1 \<and> live s1 = {}
        \<and> (\<exists>s'. CallbackWithTimeout_start c t s1 = Inr s'
              \<and> CallbackWithTimeout_start c t s = Inr s'
              \<and> execute s' \<and> thread s' = Some (spawned s) \<and> live s' = {spawned s}
              \<and> workers s' (spawned s) = (t, OuterTest) \<and> spawned s \<notin> live s))
      \<and> (\<exists>s2. CallbackWithTimeout_dtor c s = Inr s2 \<and> live s2 = {})"
    if c: "\<not> calls_from_worker c s"
  proof -
    from stop_returns_state [OF inv c] obtain s1 where
      s1: "CallbackWithTimeout_stop c s = Inr s1" "\<not> execute s1" "live s1 = {}"
      by blast
    from start_returns_state [OF inv c, of t] s1(1) obtain s' where
      s': "CallbackWithTimeout_start c t s = Inr s'" "execute s'" "thread s' = Some (spawned s)"
        "live s' = {spawned s}" "workers s' (spawned s) = (t, OuterTest)"
        "CallbackWithTimeout_start c t s1 = Inr s'"
      by blast
    have "\<exists>s2. CallbackWithTimeout_dtor c s = Inr s2 \<and> live s2 = {}"
    proof (cases "execute s")
      case True
      with s1 show ?thesis by (simp add: CallbackWithTimeout_dtor_def)
    next
      case False
      with fl l have "live s = {}" by simp
      with False show ?thesis by (simp add: CallbackWithTimeout_dtor_def)
    qed
    with s1 s' new show ?thesis
      by blast
  qed
  have inside: "CallbackWithTimeout_stop c s = Inl Terminate
      \<and> CallbackWithTimeout_start c t s = Inl Terminate"
    if "calls_from_worker c s"
    using that stop_from_worker start_from_worker [OF inv] by blast
  have callback: "calls_from_worker c s" if "c \<noteq> Owner" and "may_call c s"
    using that callback_caller_is_handle [OF assms] by (cases c) simp_all
  have overload: "CallbackWithTimeout_start0 c s = CallbackWithTimeout_start c 0 s"
    by (simp add: CallbackWithTimeout_start0_def)
  from l card running outside inside callback overload show ?thesis
    by blast
qed

theorem executor_single_worker_witness:
  "reachable in_first_callback
   \<and> \<not> calls_from_worker Owner in_first_callback
   \<and> card (live in_first_callback) \<le> 1
   \<and> (\<exists>s'. CallbackWithTimeout_start Owner 7 in_first_callback = Inr s'
         \<and> live s' = {1} \<and> workers s' 1 = (7, OuterTest) \<and> workers s' 0 = (5, Exited))
   \<and> calls_from_worker (Worker 0) in_first_callback
   \<and> CallbackWithTimeout_stop (Worker 0) in_first_callback = Inl Terminate"
proof -
  have o: "\<not> calls_from_worker Owner in_first_callback"
    by simp
  have w: "calls_from_worker (Worker 0) in_first_callback"
    by (simp add: in_first_callback_def)
  have sp: "spawned in_first_callback = 1"
    by (simp add: in_first_callback_def)
  from executor_single_worker [OF reachable_in_first_callback, of Owner 7] o sp
  obtain s' where s': "CallbackWithTimeout_start Owner 7 in_first_callback = Inr s'"
    "live s' = {1}" "workers s' 1 = (7, OuterTest)"
    and card: "card (live in_first_callback) \<le> 1"
    by auto
  have "CallbackWithTimeout_start Owner 7 in_first_callback =
      Inr \<lparr>execute = True, thread = Some 1,
           workers = (\<lambda>i. (0, Exited))(0 := (5, Exited), 1 := (7, OuterTest)), spawned = 2\<rparr>"
    by (simp add: CallbackWithTimeout_start_def CallbackWithTimeout_stop_def thread_join_def
        in_first_callback_def Let_def await_exit_cleared)
  with s'(1) have "workers s' 0 = (5, Exited)"
    by auto
  moreover from executor_single_worker [OF reachable_in_first_callback, of "Worker 0" 7] w
  have "CallbackWithTimeout_stop (Worker 0) in_first_callback = Inl Terminate"
    by blast
  ultimately show ?thesis
    using reachable_in_first_callback o w card s' by blast
qed

text \<open>
  C3 as stated fails when \<^verbatim>\<open>start\<close> is called from inside the callback: the executor is
  running, the call clears the flag and then joins the thread it is running on, and the
  process ends in \<^verbatim>\<open>std::terminate\<close>; the flag is not set again and no worker is spawned.
\<close>

theorem start_from_callback_counterexample:
  "reachable in_first_callback
   \<and> CallbackWithTimeout_isRunning in_first_callback
   \<and> may_call (Worker 0) in_first_callback
   \<and> CallbackWithTimeout_start (Worker 0) 7 in_first_callback = Inl Terminate"
proof -
  have "CallbackWithTimeout_start (Worker 0) 7 in_first_callback = Inl Terminate"
    by (simp add: CallbackWithTimeout_start_def CallbackWithTimeout_stop_def thread_join_def
        in_first_callback_def Let_def)
  moreover have "CallbackWithTimeout_isRunning in_first_callback"
    and "may_call (Worker 0) in_first_callback"
    by (simp_all add: CallbackWithTimeout_isRunning_def in_first_callback_def)
  ultimately show ?thesis
    using reachable_in_first_callback by blast
qed

subsection \<open>The JSON provider: path keys\<close>

lemma split_slash_unfold:
  "split_slash k =
     takeWhile (\<lambda>c. c \<noteq> CHR ''/'') k
       # (if CHR ''/'' \<in> set k then split_slash (drop 1 (dropWhile (\<lambda>c. c \<noteq> CHR ''/'') k)) else [])"
  by (induction k) (auto split: list.splits)

lemma segments_unfold:
  "k \<noteq> [] \<Longrightarrow>
   segments k =
     (if takeWhile (\<lambda>c. c \<noteq> CHR ''/'') k \<noteq> [] then [takeWhile (\<lambda>c. c \<noteq> CHR ''/'') k] else [])
       @ segments (drop 1 (dropWhile (\<lambda>c. c \<noteq> CHR ''/'') k))"
proof (cases "CHR ''/'' \<in> set k")
  case True
  then show ?thesis
    unfolding segments_def by (subst split_slash_unfold) simp
next
  case False
  then have d: "dropWhile (\<lambda>c. c \<noteq> CHR ''/'') k = []"
    by (auto simp: dropWhile_eq_Nil_conv)
  have "split_slash (drop 1 (dropWhile (\<lambda>c. c \<noteq> CHR ''/'') k)) = split_slash (drop 1 [])"
    by (simp only: d)
  then have "split_slash (drop 1 (dropWhile (\<lambda>c. c \<noteq> CHR ''/'') k)) = [[]]"
    by simp
  with False show ?thesis
    unfolding segments_def by (subst split_slash_unfold) simp
qed

text \<open>The tokenizing loop computes the non-empty segments of the key.\<close>

lemma tokenize_segments: "tokenize k keyLevels = keyLevels @ segments k"
proof (induction k keyLevels rule: tokenize.induct)
  case (1 stream keyLevels)
  show ?case
  proof (cases "stream = []")
    case True
    then show ?thesis
      by (simp add: tokenize.simps getline_def segments_def)
  next
    case False
    let ?tok = "takeWhile (\<lambda>c. c \<noteq> CHR ''/'') stream"
    let ?rest = "drop 1 (dropWhile (\<lambda>c. c \<noteq> CHR ''/'') stream)"
    have g: "getline stream CHR ''/'' = Some (?tok, ?rest)"
      using False by (simp add: getline_def)
    have "tokenize stream keyLevels
        = tokenize ?rest (if ?tok \<noteq> [] then keyLevels @ [?tok] else keyLevels)"
      by (subst tokenize.simps) (simp add: g)
    also have "\<dots> = (if ?tok \<noteq> [] then keyLevels @ [?tok] else keyLevels) @ segments ?rest"
      using "1.IH" [OF g refl] by blast
    also have "\<dots> = keyLevels @ segments stream"
      using segments_unfold [OF False] by simp
    finally show ?thesis .
  qed
qed

lemma split_slash_no_slash: "s \<in> set (split_slash k) \<Longrightarrow> CHR ''/'' \<notin> set s"
  by (induction k arbitrary: s) (auto split: list.splits if_splits)

lemma segments_elem: "s \<in> set (segments k) \<Longrightarrow> s \<noteq> [] \<and> CHR ''/'' \<notin> set s"
  by (auto simp: segments_def dest: split_slash_no_slash)

lemma concat_split_slash: "concat (split_slash k) = filter (\<lambda>c. c \<noteq> CHR ''/'') k"
  by (induction k) (auto split: list.splits)

lemma concat_filter_nonempty: "concat (filter (\<lambda>s. s \<noteq> []) xs) = concat xs"
  by (induction xs) auto

lemma concat_segments: "concat (segments k) = filter (\<lambda>c. c \<noteq> CHR ''/'') k"
  by (simp add: segments_def concat_filter_nonempty concat_split_slash)

lemma segments_Nil_iff: "segments k = [] \<longleftrightarrow> set k \<subseteq> {CHR ''/''}"
proof
  assume "segments k = []"
  then have "filter (\<lambda>c. c \<noteq> CHR ''/'') k = []"
    using concat_segments [of k] by simp
  then show "set k \<subseteq> {CHR ''/''}"
    by (auto simp: filter_empty_conv)
next
  assume a: "set k \<subseteq> {CHR ''/''}"
  then have "concat (segments k) = []"
    by (auto simp: concat_segments filter_empty_conv)
  then show "segments k = []"
    using segments_elem [of _ k] by (cases "segments k") auto
qed

lemma join_slash_Cons: "join_slash (s # ss) = s @ concat (map (\<lambda>l. CHR ''/'' # l) ss)"
  by (induction ss arbitrary: s) auto

lemma filter_join_slash:
  "(\<And>s. s \<in> set ss \<Longrightarrow> CHR ''/'' \<notin> set s) \<Longrightarrow>
   filter (\<lambda>c. c \<noteq> CHR ''/'') (join_slash ss) = concat ss"
proof (induction ss rule: join_slash.induct)
  case 1
  show ?case by simp
next
  case (2 s)
  then show ?case by (auto simp: filter_id_conv)
next
  case (3 s t ss)
  then have "filter (\<lambda>c. c \<noteq> CHR ''/'') s = s"
    by (auto simp: filter_id_conv)
  with 3 show ?case by simp
qed

text \<open>A path joined from an initial part of the segments is the key only if it is joined from all.\<close>

lemma join_take_segments:
  assumes "k = join_slash (take n (segments k))"
  shows "take n (segments k) = segments k"
proof -
  have "\<And>s. s \<in> set (take n (segments k)) \<Longrightarrow> CHR ''/'' \<notin> set s"
    by (meson in_set_takeD segments_elem)
  then have "filter (\<lambda>c. c \<noteq> CHR ''/'') (join_slash (take n (segments k))) = concat (take n (segments k))"
    by (rule filter_join_slash)
  with assms have "concat (take n (segments k)) = concat (segments k)"
    by (metis concat_segments)
  also have "\<dots> = concat (take n (segments k)) @ concat (drop n (segments k))"
    by (metis append_take_drop_id concat_append)
  finally have "concat (drop n (segments k)) = []"
    by simp
  then have "\<forall>s \<in> set (drop n (segments k)). s = []"
    by simp
  moreover have "\<forall>s \<in> set (drop n (segments k)). s \<noteq> []"
    by (auto dest!: in_set_dropD segments_elem)
  ultimately have "drop n (segments k) = []"
    by (cases "drop n (segments k)") auto
  then show ?thesis
    by (metis append_Nil2 append_take_drop_id)
qed

lemma traverse_parsedKey:
  "traverse levels v parsedKey = Inr (v', parsedKey', logged) \<Longrightarrow>
   \<exists>n. parsedKey' = parsedKey @ concat (map (\<lambda>l. CHR ''/'' # l) (take n levels))"
proof (induction levels arbitrary: v parsedKey)
  case Nil
  then show ?case by simp
next
  case (Cons keyLevel levels)
  show ?case
  proof (cases "FindMember v (c_str keyLevel)")
    case (Inl f)
    with Cons.prems show ?thesis by (simp add: Let_def)
  next
    case (Inr found)
    show ?thesis
    proof (cases found)
      case None
      with Inr Cons.prems have "parsedKey' = parsedKey @ ''/'' @ keyLevel"
        by (simp add: Let_def)
      then have "parsedKey' = parsedKey @ concat (map (\<lambda>l. CHR ''/'' # l) (take 1 (keyLevel # levels)))"
        by simp
      then show ?thesis by blast
    next
      case (Some w)
      show ?thesis
      proof (cases "IsString w")
        case True
        with Some Inr Cons.prems have "parsedKey' = parsedKey @ ''/'' @ keyLevel"
          by (simp add: Let_def)
        then have "parsedKey' = parsedKey @ concat (map (\<lambda>l. CHR ''/'' # l) (take 1 (keyLevel # levels)))"
          by simp
        then show ?thesis by blast
      next
        case False
        with Some Inr Cons.prems
        have "traverse levels w (parsedKey @ ''/'' @ keyLevel) = Inr (v', parsedKey', logged)"
          by (simp add: Let_def)
        from Cons.IH [OF this] obtain n where
          "parsedKey' = (parsedKey @ ''/'' @ keyLevel) @ concat (map (\<lambda>l. CHR ''/'' # l) (take n levels))"
          by blast
        then have "parsedKey' = parsedKey @ concat (map (\<lambda>l. CHR ''/'' # l) (take (Suc n) (keyLevel # levels)))"
          by simp
        then show ?thesis by blast
      qed
    qed
  qed
qed

text \<open>
  When \<^verbatim>\<open>getValue\<close> returns true, \<^verbatim>\<open>values\<close> holds one string and the key is a path
  joined from an initial part of the key levels.
\<close>

lemma getValue_true:
  assumes "RapidJsonProvider_getValue p k values0 = Inr (True, values, logged)"
  shows "length values = 1
    \<and> (\<exists>n. k = join_slash (take (Suc n) (if segments k = [] then [k] else segments k)))"
proof -
  let ?keyLevels = "if segments k = [] then [k] else segments k"
  from assms have ini: "initialized p" "k \<noteq> []"
    by (auto simp: RapidJsonProvider_getValue_def Let_def split: if_splits)
  obtain first levels where kl: "?keyLevels = first # levels"
    by (cases ?keyLevels) (auto split: if_splits)
  have tk: "(if tokenize k [] = [] then tokenize k [] @ [k] else tokenize k []) = first # levels"
    using kl by (auto simp: tokenize_segments split: if_splits)
  from assms ini obtain v where fm: "FindMember (doc p) (c_str first) = Inr (Some v)"
    by (auto simp: RapidJsonProvider_getValue_def Let_def tk split: sum.splits option.splits)
  let ?loop = "if IsObject v \<and> length (first # levels) > 1 then traverse levels v first
               else Inr (v, first, [])"
  from assms ini fm obtain v' parsedKey' lg where
    loop: "?loop = Inr (v', parsedKey', lg)"
    and ok: "IsString v'" "0 = string_compare parsedKey' k"
    and vals: "values = [GetString v']"
    by (auto simp: RapidJsonProvider_getValue_def Let_def tk
        split: sum.splits option.splits if_splits)
  from ok(2) have pk: "parsedKey' = k"
    by (simp add: string_compare_eq_0)
  have "\<exists>n. parsedKey' = first @ concat (map (\<lambda>l. CHR ''/'' # l) (take n levels))"
  proof (cases "IsObject v \<and> length (first # levels) > 1")
    case True
    with loop have "traverse levels v first = Inr (v', parsedKey', lg)"
      by simp
    then show ?thesis by (rule traverse_parsedKey)
  next
    case False
    with loop have "parsedKey' = first @ concat (map (\<lambda>l. CHR ''/'' # l) (take 0 levels))"
      by (auto split: if_splits)
    then show ?thesis by blast
  qed
  then obtain n where "parsedKey' = join_slash (take (Suc n) (first # levels))"
    by (auto simp: join_slash_Cons)
  with pk kl have "k = join_slash (take (Suc n) ?keyLevels)"
    by simp
  with vals show ?thesis
    by auto
qed

lemma getValue_false_values:
  assumes "RapidJsonProvider_getValue p k values0 = Inr (False, values, logged)"
  shows "values = []"
  using assms
  by (auto simp: RapidJsonProvider_getValue_def Let_def
      split: sum.splits option.splits if_splits list.splits)

lemma split_slash_append_sep:
  "CHR ''/'' \<notin> set s \<Longrightarrow> split_slash (s @ CHR ''/'' # r) = s # split_slash r"
  by (induction s) auto

lemma split_slash_no_sep: "CHR ''/'' \<notin> set s \<Longrightarrow> split_slash s = [s]"
  by (induction s) auto

lemma split_join_slash:
  "ss \<noteq> [] \<Longrightarrow> (\<And>s. s \<in> set ss \<Longrightarrow> CHR ''/'' \<notin> set s) \<Longrightarrow> split_slash (join_slash ss) = ss"
proof (induction ss rule: join_slash.induct)
  case 1
  then show ?case by simp
next
  case (2 s)
  then show ?case by (simp add: split_slash_no_sep)
next
  case (3 s t ss)
  then show ?case by (simp add: split_slash_append_sep)
qed

lemma split_slash_nonempty: "split_slash k \<noteq> []"
  by (induction k) (auto split: list.splits)

lemma split_slash_trailing: "split_slash (r @ ''/'') = split_slash r @ [[]]"
  by (induction r) (auto simp: split_slash_nonempty split: list.splits)

lemma split_slash_double: "sublist ''//'' k \<Longrightarrow> [] \<in> set (tl (split_slash k))"
proof (induction k)
  case Nil
  then show ?case by simp
next
  case (Cons c cs)
  from Cons.prems have "prefix ''//'' (c # cs) \<or> sublist ''//'' cs"
    by (simp add: sublist_Cons_right)
  then show ?case
  proof
    assume "prefix ''//'' (c # cs)"
    then obtain cs' where "c = CHR ''/''" "cs = CHR ''/'' # cs'"
      by (auto simp: prefix_def)
    then show ?thesis by simp
  next
    assume "sublist ''//'' cs"
    then have "[] \<in> set (tl (split_slash cs))"
      by (rule Cons.IH)
    then show ?thesis
      by (cases "split_slash cs") (auto dest: list.set_sel(2))
  qed
qed

text \<open>A key with a leading, a trailing or a doubled separator has an empty piece.\<close>

lemma malformed_key_empty_piece:
  assumes "prefix ''/'' k \<or> suffix ''/'' k \<or> sublist ''//'' k"
  shows "[] \<in> set (split_slash k)"
proof -
  from assms consider "prefix ''/'' k" | "suffix ''/'' k" | "sublist ''//'' k"
    by blast
  then show ?thesis
  proof cases
    case 1
    then obtain r where "k = CHR ''/'' # r"
      by (auto simp: prefix_def)
    then show ?thesis by simp
  next
    case 2
    then obtain r where "k = r @ ''/''"
      by (auto simp: suffix_def)
    then show ?thesis by (simp add: split_slash_trailing)
  next
    case 3
    then have "[] \<in> set (tl (split_slash k))"
      by (rule split_slash_double)
    then show ?thesis
      by (cases "split_slash k") auto
  qed
qed

lemma rebuilt_path_well_formed:
  assumes "k = rebuilt_path k" and "segments k \<noteq> []"
  shows "\<not> (prefix ''/'' k \<or> suffix ''/'' k \<or> sublist ''//'' k)"
proof
  assume "prefix ''/'' k \<or> suffix ''/'' k \<or> sublist ''//'' k"
  then have "[] \<in> set (split_slash k)"
    by (rule malformed_key_empty_piece)
  moreover have "split_slash (join_slash (segments k)) = segments k"
    using assms(2) segments_elem by (intro split_join_slash) auto
  then have "split_slash k = segments k"
    using assms(1) by (simp add: rebuilt_path_def)
  ultimately have "[] \<in> set (segments k)"
    by simp
  then show False
    using segments_elem by blast
qed

text \<open>
  C10, as amended. When \<^verbatim>\<open>getValue\<close> returns, it returns true only if the key is,
  character for character, the path rebuilt by joining its non-empty segments with single
  \<open>/\<close> characters, or the key consists of \<open>/\<close> characters only (it has no non-empty
  segment then, and is looked up whole as a member of the document); on success
  \<^verbatim>\<open>values\<close> holds exactly one element. So for every key that has a character other than
  \<open>/\<close> and a leading \<open>/\<close>, a trailing \<open>/\<close> or two consecutive \<open>/\<close>, a call that
  returns returns false and leaves \<^verbatim>\<open>values\<close> empty, whatever the document holds.
\<close>

theorem getValue_true_only_for_rebuilt_path:
  assumes "RapidJsonProvider_getValue p k values0 = Inr (st, values, logged)"
  shows "(st \<longrightarrow> length values = 1 \<and> (k = rebuilt_path k \<or> set k \<subseteq> {CHR ''/''}))
    \<and> (\<not> set k \<subseteq> {CHR ''/''} \<and> (prefix ''/'' k \<or> suffix ''/'' k \<or> sublist ''//'' k)
         \<longrightarrow> \<not> st \<and> values = [])"
proof -
  have success: "length values = 1 \<and> (k = rebuilt_path k \<or> set k \<subseteq> {CHR ''/''})" if st
  proof -
    from assms that have t: "RapidJsonProvider_getValue p k values0 = Inr (True, values, logged)"
      by simp
    from getValue_true [OF t] obtain n where
      len: "length values = 1"
      and k: "k = join_slash (take (Suc n) (if segments k = [] then [k] else segments k))"
      by blast
    show ?thesis
    proof (cases "segments k = []")
      case True
      then show ?thesis
        using len by (simp add: segments_Nil_iff)
    next
      case False
      with k have "k = join_slash (take (Suc n) (segments k))"
        by simp
      then have "k = join_slash (segments k)"
        using join_take_segments [of k "Suc n"] by simp
      then show ?thesis
        using len by (simp add: rebuilt_path_def)
    qed
  qed
  have failure: "values = []" if "\<not> st"
  proof -
    from assms that have "RapidJsonProvider_getValue p k values0 = Inr (False, values, logged)"
      by simp
    then show ?thesis by (rule getValue_false_values)
  qed
  have malformed: "\<not> st"
    if nz: "\<not> set k \<subseteq> {CHR ''/''}" and m: "prefix ''/'' k \<or> suffix ''/'' k \<or> sublist ''//'' k"
  proof
    assume st
    with success nz have "k = rebuilt_path k"
      by blast
    moreover from nz have "segments k \<noteq> []"
      by (simp add: segments_Nil_iff)
    ultimately show False
      using rebuilt_path_well_formed m by blast
  qed
  from success failure malformed show ?thesis
    by blast
qed

lemma getValue_nested_doc:
  "RapidJsonProvider_getValue
       \<lparr>doc = JObject [(''a'', JObject [(''b'', JString ''x'')])], initialized = True\<rparr>
       ''a/b'' [''old'']
     = Inr (True, [''x''], [LogDebug (''Found a/b='' @ [CHR 0x27] @ ''x'' @ [CHR 0x27])])"
  by code_simp

lemma getValue_nested_doc_leading:
  "RapidJsonProvider_getValue
       \<lparr>doc = JObject [(''a'', JObject [(''b'', JString ''x'')])], initialized = True\<rparr>
       ''/a/b'' [''old'']
     = Inr (False, [], [])"
  by code_simp

theorem getValue_true_only_for_rebuilt_path_witness:
  "RapidJsonProvider_getValue
       \<lparr>doc = JObject [(''a'', JObject [(''b'', JString ''x'')])], initialized = True\<rparr>
       ''a/b'' [''old'']
     = Inr (True, [''x''], [LogDebug (''Found a/b='' @ [CHR 0x27] @ ''x'' @ [CHR 0x27])])
   \<and> ''a/b'' = rebuilt_path ''a/b''
   \<and> RapidJsonProvider_getValue
       \<lparr>doc = JObject [(''a'', JObject [(''b'', JString ''x'')])], initialized = True\<rparr>
       ''/a/b'' [''old'']
     = Inr (False, [], [])
   \<and> \<not> set ''/a/b'' \<subseteq> {CHR ''/''}
   \<and> prefix ''/'' ''/a/b''"
proof -
  have "''a/b'' = rebuilt_path ''a/b'' \<or> set ''a/b'' \<subseteq> {CHR ''/''}"
    using getValue_true_only_for_rebuilt_path [OF getValue_nested_doc] by blast
  then have "''a/b'' = rebuilt_path ''a/b''"
    by auto
  moreover have "\<not> set ''/a/b'' \<subseteq> {CHR ''/''}" and "prefix ''/'' ''/a/b''"
    by simp_all
  ultimately show ?thesis
    using getValue_nested_doc getValue_nested_doc_leading by blast
qed

text \<open>
  C10 as stated fails for a key made of \<open>/\<close> characters only: it has a leading (and a
  trailing) \<open>/\<close>, and the path rebuilt from its non-empty segments is empty, yet the key is
  looked up whole and found when the document has a string member of that name.
\<close>

theorem getValue_slash_key_counterexample:
  "RapidJsonProvider_getValue \<lparr>doc = JObject [(''/'', JString ''x'')], initialized = True\<rparr>
       ''/'' []
     = Inr (True, [''x''], [LogDebug (''Found /='' @ [CHR 0x27] @ ''x'' @ [CHR 0x27])])
   \<and> prefix ''/'' ''/''
   \<and> suffix ''/'' ''/''
   \<and> rebuilt_path ''/'' \<noteq> ''/''"
proof -
  have "RapidJsonProvider_getValue \<lparr>doc = JObject [(''/'', JString ''x'')], initialized = True\<rparr>
       ''/'' []
     = Inr (True, [''x''], [LogDebug (''Found /='' @ [CHR 0x27] @ ''x'' @ [CHR 0x27])])"
    by code_simp
  moreover have "rebuilt_path ''/'' \<noteq> ''/''"
    by (simp add: rebuilt_path_def segments_def)
  ultimately show ?thesis
    by simp
qed

end
